theory Spec2Isabelle
  imports Complex_Main "HOL-Library.Sublist" "HOL-Library.Char_ord" "HOL-Library.List_Lexorder"
begin

section \<open>The report scraper (scraper.py): task ids, records, processed URLs\<close>

text \<open>
  \<^verbatim>\<open>ReportScraper._extract_task_id\<close> is
  \<^verbatim>\<open>re.search(r"/tasks/([a-f0-9-]+)", url)\<close>: the leftmost place where the literal
  \<^verbatim>\<open>/tasks/\<close> is followed by at least one character of the class, the group being the
  longest run of such characters there.
\<close>

definition hexdash :: "char \<Rightarrow> bool" where
  "hexdash c = (c \<in> set ''abcdef0123456789-'')"

fun extract_task_id :: "string \<Rightarrow> string option" where
  "extract_task_id [] = None"
| "extract_task_id (c # cs) =
     (if prefix ''/tasks/'' (c # cs) \<and> takeWhile hexdash (drop 7 (c # cs)) \<noteq> []
      then Some (takeWhile hexdash (drop 7 (c # cs)))
      else extract_task_id cs)"

text \<open>
  What the browser gives for one URL of the main loop. Everything between
  \<^verbatim>\<open>self.driver.get(url)\<close> and the write of the record file runs inside one
  \<^verbatim>\<open>try\<close> of \<^verbatim>\<open>scrape_report\<close>: an exception there, or a page that did not load
  after the retry, ends in \<^verbatim>\<open>return None\<close>.
\<close>

datatype 'd page_result =
    GetRaised
  | NotLoaded
  | ExtractRaised
  | Extracted 'd "string option"

datatype write_result = WriteOk | OpenFailed | DumpFailed

record 'd browse =
  page :: "'d page_result"
  write_res :: write_result
  ckpt_ok :: bool

record 'd report =
  task_id :: string
  url :: string
  sections :: 'd
  pcap_file :: "string option"

datatype 'd out_file = Complete "'d report" | Partial

record 'd rstate =
  processed_urls :: "string set"
  out_files :: "string \<rightharpoonup> 'd out_file"
  checkpoint :: "string set option"
  nav_log :: "string list"

definition report_name :: "string \<Rightarrow> string" where
  "report_name tid = tid @ ''_report.json''"

definition scrape_report :: "'d browse \<Rightarrow> string \<Rightarrow> 'd rstate \<Rightarrow> 'd report option \<times> 'd rstate" where
  "scrape_report b u s =
     (case extract_task_id u of
        None \<Rightarrow> (None, s)
      | Some tid \<Rightarrow>
          let s1 = s\<lparr>nav_log := nav_log s @ [u]\<rparr> in
          (case page b of
             GetRaised \<Rightarrow> (None, s1)
           | NotLoaded \<Rightarrow> (None, s1)
           | ExtractRaised \<Rightarrow> (None, s1)
           | Extracted d pcap \<Rightarrow>
               let rep = \<lparr>task_id = tid, url = u, sections = d, pcap_file = pcap\<rparr> in
               (case write_res b of
                  OpenFailed \<Rightarrow> (None, s1)
                | DumpFailed \<Rightarrow>
                    (None, s1\<lparr>out_files := (out_files s1)(report_name tid \<mapsto> Partial)\<rparr>)
                | WriteOk \<Rightarrow>
                    (Some rep, s1\<lparr>out_files := (out_files s1)(report_name tid \<mapsto> Complete rep)\<rparr>))))"

text \<open>
  \<^verbatim>\<open>_save_checkpoint\<close> writes the processed set; a failure is printed and swallowed
  (the file then keeps what it held).
\<close>

definition save_checkpoint :: "bool \<Rightarrow> 'd rstate \<Rightarrow> 'd rstate" where
  "save_checkpoint ok s = (if ok then s\<lparr>checkpoint := Some (processed_urls s)\<rparr> else s)"

text \<open>
  The loop of \<^verbatim>\<open>run\<close>: \<^verbatim>\<open>result = self.scrape_report(url)\<close>, and only
  \<^verbatim>\<open>if result:\<close> the URL is added and the checkpoint saved. The browser's answers are
  indexed by the position in the list, since a URL listed twice is scraped twice.
\<close>

fun run_loop :: "(nat \<Rightarrow> 'd browse) \<Rightarrow> nat \<Rightarrow> string list \<Rightarrow> 'd rstate \<Rightarrow> 'd rstate" where
  "run_loop env i [] s = s"
| "run_loop env i (u # us) s =
     (case scrape_report (env i) u s of
        (None, s') \<Rightarrow> run_loop env (Suc i) us s'
      | (Some r, s') \<Rightarrow>
          run_loop env (Suc i) us
            (save_checkpoint (ckpt_ok (env i)) (s'\<lparr>processed_urls := insert u (processed_urls s')\<rparr>)))"

definition run :: "(nat \<Rightarrow> 'd browse) \<Rightarrow> string list \<Rightarrow> 'd rstate \<Rightarrow> 'd rstate" where
  "run env urls s = run_loop env 0 (filter (\<lambda>u. u \<notin> processed_urls s) urls) s"

definition ckpt_urls :: "'d rstate \<Rightarrow> string set" where
  "ckpt_urls s = (case checkpoint s of None \<Rightarrow> {} | Some P \<Rightarrow> P)"


definition rstate0 :: "string rstate" where
  "rstate0 = \<lparr>processed_urls = {}, out_files = Map.empty, checkpoint = None, nav_log = []\<rparr>"

definition browse_ok :: "string browse" where
  "browse_ok = \<lparr>page = Extracted ''sections'' None, write_res = WriteOk, ckpt_ok = True\<rparr>"


section \<open>Persisted documents: the checkpoint file and the crawl-state file\<close>

text \<open>
  \<^verbatim>\<open>json.dump\<close> and \<^verbatim>\<open>json.load\<close> are the library's; a file is modelled by the JSON
  value it holds. An object keeps its members in file order; \<^verbatim>\<open>json.load\<close> keeps the
  last value of a repeated key, and so does \<open>obj_get\<close>.
\<close>

datatype json =
    JNull
  | JBool bool
  | JInt int
  | JFloat real
  | JStr string
  | JList "json list"
  | JObj "(string \<times> json) list"

datatype stored = NoFile | Unreadable | Doc json

datatype exn =
    TimeoutException
  | NoSuchElementException
  | StaleElementReferenceException
  | WebDriverException
  | AttributeError
  | IOError
  | OverflowError

definition obj_get :: "(string \<times> json) list \<Rightarrow> string \<Rightarrow> json \<Rightarrow> json" where
  "obj_get kvs k dflt = (case map_of (rev kvs) k of None \<Rightarrow> dflt | Some v \<Rightarrow> v)"

text \<open>\<^verbatim>\<open>str(url) for url in urls if isinstance(url, str)\<close>\<close>

fun str_items :: "json list \<Rightarrow> string list" where
  "str_items [] = []"
| "str_items (JStr u # js) = u # str_items js"
| "str_items (j # js) = str_items js"

text \<open>Truthiness of an optional string: \<^verbatim>\<open>None\<close> and \<^verbatim>\<open>""\<close> are false.\<close>

definition truthy :: "string option \<Rightarrow> bool" where
  "truthy x = (case x of None \<Rightarrow> False | Some t \<Rightarrow> t \<noteq> [])"

record config =
  state_path :: "string option"
  bot_check_selector :: "string option"
  smtp_host :: "string option"
  smtp_from :: "string option"
  smtp_to :: "string option"

record datetime =
  year :: nat
  month :: nat
  day :: nat
  hour :: nat
  minute :: nat
  second :: nat
  microsecond :: nat

definition digit :: "nat \<Rightarrow> char" where
  "digit n = ''0123456789'' ! n"

fun dec :: "nat \<Rightarrow> string" where
  "dec n = (if n < 10 then [digit n] else dec (n div 10) @ [digit (n mod 10)])"

definition zero_pad :: "nat \<Rightarrow> string \<Rightarrow> string" where
  "zero_pad w t = replicate (w - length t) CHR ''0'' @ t"

text \<open>\<^verbatim>\<open>strftime("%m/%d/%Y")\<close>\<close>

definition strftime_mdY :: "datetime \<Rightarrow> string" where
  "strftime_mdY d =
     zero_pad 2 (dec (month d)) @ ''/'' @ zero_pad 2 (dec (day d)) @ ''/'' @ zero_pad 4 (dec (year d))"

text \<open>
  What the coordinator does is recorded as a log of events, oldest first: each probe of
  the challenge detector with its answer, each delivery attempt of the notifier with its
  outcome, and each action on the page or the operator's console.
\<close>

datatype event =
    Probe bool
  | Alert bool
  | Prompt
  | AutoClick
  | Navigate
  | Authenticate
  | PageRead
  | Lookup
  | Click
  | TableWait
  | Scan
  | FilterDay
  | WaitElement
  | ReadBody

text \<open>
  \<open>tick\<close> counts the questions put to the outside world so far (the browser, the clock,
  the mail server, the disk); the answer to each is looked up at the current tick.
\<close>

record world =
  tick :: nat
  log :: "event list"

text \<open>
  The two \<^verbatim>\<open>AnyRunScraper\<close> classes share the collected set, the notified flag and the
  files they write; the one under \<^verbatim>\<open>Link Scarper\<close> keeps a page cursor, the one at the
  top level a date cursor.
\<close>

record scraper = world +
  collected_urls :: "string set"
  bot_notified :: bool
  state_file :: stored
  sheet :: "string list"

record page_scraper = scraper +
  pages_processed :: int
  last_bot_prompt :: real

record date_scraper = scraper +
  last_processed_date :: "string option"
  current_scraping_date :: "datetime option"

subsection \<open>Link Scarper/any\_run\_scraper.py: page cursor\<close>

definition state_doc_pages :: "real \<Rightarrow> page_scraper \<Rightarrow> json" where
  "state_doc_pages ts s =
     JObj [(''collected_urls'', JList (map JStr (sorted_list_of_set (collected_urls s)))),
           (''pages_processed'', JInt (pages_processed s)),
           (''timestamp'', JFloat ts)]"

text \<open>
  \<^verbatim>\<open>_load_state\<close>. \<^verbatim>\<open>data.get\<close> on a document that is not an object raises
  \<^verbatim>\<open>AttributeError\<close>, which nothing catches. A JSON \<^verbatim>\<open>true\<close> or \<^verbatim>\<open>false\<close> passes
  \<^verbatim>\<open>isinstance(pages_processed, int)\<close>, since \<^verbatim>\<open>bool\<close> is a subclass of \<^verbatim>\<open>int\<close>.
\<close>

definition load_urls :: "(string \<times> json) list \<Rightarrow> string set \<Rightarrow> string set" where
  "load_urls kvs C =
     (case obj_get kvs ''collected_urls'' (JList []) of
        JList xs \<Rightarrow> C \<union> set (str_items xs)
      | _ \<Rightarrow> C)"

definition load_state_pages :: "config \<Rightarrow> page_scraper \<Rightarrow> exn + page_scraper" where
  "load_state_pages c s =
     (if \<not> truthy (state_path c) then Inr s
      else case state_file s of
        NoFile \<Rightarrow> Inr s
      | Unreadable \<Rightarrow> Inr s
      | Doc (JObj kvs) \<Rightarrow>
          let s1 = s\<lparr>collected_urls := load_urls kvs (collected_urls s)\<rparr> in
          (case obj_get kvs ''pages_processed'' (JInt 0) of
             JInt n \<Rightarrow> Inr (if n \<ge> 0 then s1\<lparr>pages_processed := n\<rparr> else s1)
           | JBool b \<Rightarrow> Inr (s1\<lparr>pages_processed := (if b then 1 else 0)\<rparr>)
           | _ \<Rightarrow> Inr s1)
      | Doc _ \<Rightarrow> Inl AttributeError)"

subsection \<open>any\_run\_scraper.py: date cursor\<close>

definition opt_str :: "string option \<Rightarrow> json" where
  "opt_str x = (case x of None \<Rightarrow> JNull | Some t \<Rightarrow> JStr t)"

definition state_doc_days :: "real \<Rightarrow> date_scraper \<Rightarrow> json" where
  "state_doc_days ts s =
     JObj [(''collected_urls'', JList (map JStr (sorted_list_of_set (collected_urls s)))),
           (''last_processed_date'', opt_str (last_processed_date s)),
           (''current_scraping_date'', opt_str (map_option strftime_mdY (current_scraping_date s))),
           (''timestamp'', JFloat ts)]"

text \<open>
  \<^verbatim>\<open>_load_state\<close> of the date-bucket collector. \<^verbatim>\<open>datetime.strptime\<close> is the
  library's and is a parameter here: \<open>strptime text format\<close> is \<open>None\<close> where Python raises
  \<^verbatim>\<open>ValueError\<close>. The resume day is parsed from \<^verbatim>\<open>last_processed_date\<close>, the text of
  the last row seen; the key \<^verbatim>\<open>current_scraping_date\<close> is never read.
\<close>

definition midnight :: "datetime \<Rightarrow> datetime" where
  "midnight d = d\<lparr>hour := 0, minute := 0, second := 0, microsecond := 0\<rparr>"

definition parse_resume_day :: "(string \<Rightarrow> string \<Rightarrow> datetime option) \<Rightarrow> string \<Rightarrow> datetime option" where
  "parse_resume_day strptime last_date =
     (case strptime last_date ''%d %B %Y, %H:%M'' of
        Some d \<Rightarrow> Some (midnight d)
      | None \<Rightarrow> strptime (takeWhile (\<lambda>c. c \<noteq> CHR '','') last_date) ''%d %B %Y'')"

definition load_state_days ::
  "(string \<Rightarrow> string \<Rightarrow> datetime option) \<Rightarrow> config \<Rightarrow> date_scraper \<Rightarrow> exn + date_scraper" where
  "load_state_days strptime c s =
     (if \<not> truthy (state_path c) then Inr s
      else case state_file s of
        NoFile \<Rightarrow> Inr s
      | Unreadable \<Rightarrow> Inr s
      | Doc (JObj kvs) \<Rightarrow>
          let s1 = s\<lparr>collected_urls := load_urls kvs (collected_urls s)\<rparr> in
          (case obj_get kvs ''last_processed_date'' JNull of
             JStr last_date \<Rightarrow>
               if last_date = [] then Inr s1
               else
                 let s2 = s1\<lparr>last_processed_date := Some last_date\<rparr> in
                 (case parse_resume_day strptime last_date of
                    Some d \<Rightarrow> Inr (s2\<lparr>current_scraping_date := Some d\<rparr>)
                  | None \<Rightarrow> Inr s2)
           | _ \<Rightarrow> Inr s1)
      | Doc _ \<Rightarrow> Inl AttributeError)"

subsection \<open>What a save leaves on disk when it is cut short\<close>









text \<open>
  The configuration the command line builds by default, and the two collectors as
  \<^verbatim>\<open>__init__\<close> leaves them before \<^verbatim>\<open>_load_state\<close>.
\<close>

definition cfg0 :: config where
  "cfg0 = \<lparr>state_path = Some ''scraper_state.json'',
            bot_check_selector = Some (''form#challenge-form, div#cf-spinner, div[class*='cf-challenge'], '' @
                                        ''div[class*='botcheck'], iframe[src*='challenge']''),
            smtp_host = Some ''smtp.gmail.com'',
            smtp_from = Some ''scraper@example.org'',
            smtp_to = Some ''operator@example.org''\<rparr>"

definition fresh_pages :: page_scraper where
  "fresh_pages = \<lparr>tick = 0, log = [], collected_urls = {}, bot_notified = False,
                    state_file = NoFile, sheet = [], pages_processed = 0, last_bot_prompt = 0\<rparr>"

definition fresh_days :: date_scraper where
  "fresh_days = \<lparr>tick = 0, log = [], collected_urls = {}, bot_notified = False,
                   state_file = NoFile, sheet = [], last_processed_date = None,
                   current_scraping_date = None\<rparr>"

definition nov3 :: datetime where
  "nov3 = \<lparr>year = 2026, month = 11, day = 3, hour = 0, minute = 0, second = 0, microsecond = 0\<rparr>"

section \<open>The outside world of the collectors\<close>

text \<open>
  The browser, the clock, the mail server and the disk are not part of the repository.
  Each is an oracle, asked at the current tick: \<open>challenge\<close> is what
  \<^verbatim>\<open>_is_bot_challenge_present()\<close> returns, \<open>clock\<close> what \<^verbatim>\<open>time.time()\<close> returns (in
  seconds), \<open>delivery\<close> whether sending the alert mail succeeds, \<open>page_spans\<close> the texts of
  the pagination spans read as integers, \<open>next_button\<close> the outcome of waiting for the
  next-page button, and so on.
\<close>

record button =
  disabled_attr :: "string option"
  aria_disabled :: "string option"
  class_attr :: "string option"

datatype lookup = Clickable button | NoButton | LookupTimeout

datatype click = Clicked | ClickStale | ClickFailed

record row =
  row_time :: "string option"
  links :: "string option list option"

record env =
  challenge :: "nat \<Rightarrow> bool"
  clock :: "nat \<Rightarrow> real"
  delivery :: "nat \<Rightarrow> bool"
  page_spans :: "nat \<Rightarrow> int option list option"
  next_button :: "nat \<Rightarrow> lookup"
  click_result :: "nat \<Rightarrow> click"
  table_present :: "nat \<Rightarrow> bool"
  rows :: "nat \<Rightarrow> row list"
  disk_ok :: "nat \<Rightarrow> bool"
  filter_ok :: "nat \<Rightarrow> bool"
  element_present :: "nat \<Rightarrow> bool"
  body_len :: "nat \<Rightarrow> nat option"
  today :: datetime

datatype ('a, 's) outcome = Returned 'a 's | Raised exn 's

definition asked :: "event \<Rightarrow> 'a world_scheme \<Rightarrow> 'a world_scheme" where
  "asked ev s = s\<lparr>tick := Suc (tick s), log := log s @ [ev]\<rparr>"

definition did :: "event \<Rightarrow> 'a world_scheme \<Rightarrow> 'a world_scheme" where
  "did ev s = s\<lparr>log := log s @ [ev]\<rparr>"

section \<open>Challenge handling\<close>

definition smtp_configured :: "config \<Rightarrow> bool" where
  "smtp_configured c = (truthy (smtp_host c) \<and> truthy (smtp_from c) \<and> truthy (smtp_to c))"

text \<open>
  \<^verbatim>\<open>AnyRunScraper._notify_bot_block\<close> (the same in both collectors): the flag is set
  first; without SMTP host, sender and recipient nothing is sent; an exception of the
  delivery is printed and swallowed (\<open>Alert False\<close>).
\<close>

definition notify_bot_block :: "config \<Rightarrow> env \<Rightarrow> 'a scraper_scheme \<Rightarrow> 'a scraper_scheme" where
  "notify_bot_block c e s =
     (let s1 = s\<lparr>bot_notified := True\<rparr> in
      if \<not> smtp_configured c then s1
      else asked (Alert (delivery e (tick s1))) s1)"

text \<open>\<^verbatim>\<open>Link Scarper/any_run_scraper.py\<close>, \<^verbatim>\<open>_handle_bot_challenge\<close>.\<close>

definition handle_bot_challenge :: "config \<Rightarrow> env \<Rightarrow> page_scraper \<Rightarrow> bool \<times> page_scraper" where
  "handle_bot_challenge c e s =
     (if \<not> truthy (bot_check_selector c) then (False, s)
      else
        let p = challenge e (tick s); s1 = asked (Probe p) s in
        if \<not> p then (False, s1\<lparr>bot_notified := False\<rparr>)
        else
          let s2 = (if \<not> bot_notified s1 then notify_bot_block c e s1 else s1);
              now = clock e (tick s2);
              s3 = s2\<lparr>tick := Suc (tick s2)\<rparr>
          in if now - last_bot_prompt s3 < 2 then (True, s3)
             else
               let s4 = did Prompt s3
               in (True, s4\<lparr>last_bot_prompt := clock e (tick s4), tick := Suc (tick s4)\<rparr>))"

text \<open>
  \<^verbatim>\<open>any_run_scraper.py\<close>, \<^verbatim>\<open>_handle_bot_challenge\<close>: one automated click, a second probe
  (a sleep of the poll interval follows when it still reports the challenge), and
  \<^verbatim>\<open>True\<close> either way.
\<close>

definition handle_bot_challenge_days :: "config \<Rightarrow> env \<Rightarrow> 'a scraper_scheme \<Rightarrow> bool \<times> 'a scraper_scheme" where
  "handle_bot_challenge_days c e s =
     (let p = challenge e (tick s); s1 = asked (Probe p) s in
      if \<not> p then (False, s1\<lparr>bot_notified := False\<rparr>)
      else
        let s2 = (if \<not> bot_notified s1 then notify_bot_block c e s1 else s1);
            s3 = did AutoClick s2;
            p2 = challenge e (tick s3)
        in (True, asked (Probe p2) s3))"

text \<open>The gate in front of every step: \<^verbatim>\<open>while self._handle_bot_challenge(): pass\<close>.\<close>

partial_function (option) await_clear :: "('s \<Rightarrow> bool \<times> 's) \<Rightarrow> 's \<Rightarrow> 's option" where
  "await_clear h s = (case h s of (b, s') \<Rightarrow> if b then await_clear h s' else Some s')"

text \<open>
  \<^verbatim>\<open>_ensure_table_loaded\<close>: wait for the table; whether the wait timed out or not, a
  handler that reports a challenge sends the loop round again; otherwise a timeout is
  re-raised and a table that is there ends the loop.
\<close>

partial_function (option) ensure_table_loaded ::
  "('a scraper_scheme \<Rightarrow> bool \<times> 'a scraper_scheme) \<Rightarrow> env \<Rightarrow> 'a scraper_scheme \<Rightarrow>
     (unit, 'a scraper_scheme) outcome option" where
  "ensure_table_loaded h e s =
     (case h (asked TableWait s) of
        (b, s') \<Rightarrow>
          if b then ensure_table_loaded h e s'
          else if table_present e (tick s) then Some (Returned () s')
          else Some (Raised TimeoutException s'))"

section \<open>Pagination\<close>

definition lower_char :: "char \<Rightarrow> char" where
  "lower_char ch =
     (case map_of (zip ''ABCDEFGHIJKLMNOPQRSTUVWXYZ'' ''abcdefghijklmnopqrstuvwxyz'') ch of
        None \<Rightarrow> ch | Some l \<Rightarrow> l)"

definition lower :: "string \<Rightarrow> string" where
  "lower t = map lower_char t"

definition is_button_enabled :: "button \<Rightarrow> bool" where
  "is_button_enabled b =
     (\<not> (disabled_attr b \<noteq> None
         \<or> (truthy (aria_disabled b) \<and> map_option lower (aria_disabled b) = Some ''true'')
         \<or> sublist ''disabled'' (lower (case class_attr b of None \<Rightarrow> [] | Some t \<Rightarrow> t))))"

text \<open>
  \<^verbatim>\<open>_go_to_next_page\<close> (the same in both collectors). Only
  \<^verbatim>\<open>NoSuchElementException\<close> of the lookup, \<^verbatim>\<open>StaleElementReferenceException\<close> of the
  click and \<^verbatim>\<open>TimeoutException\<close> of the table wait are caught, and each of them ends in
  \<^verbatim>\<open>return False\<close>; any other exception leaves the function.
\<close>

definition go_to_next_page ::
  "('a scraper_scheme \<Rightarrow> bool \<times> 'a scraper_scheme) \<Rightarrow> env \<Rightarrow> 'a scraper_scheme \<Rightarrow>
     (bool, 'a scraper_scheme) outcome option" where
  "go_to_next_page h e s =
     (case await_clear h s of
        None \<Rightarrow> None
      | Some s1 \<Rightarrow>
          let s2 = asked Lookup s1 in
          (case next_button e (tick s1) of
             NoButton \<Rightarrow> Some (Returned False s2)
           | LookupTimeout \<Rightarrow> Some (Raised TimeoutException s2)
           | Clickable b \<Rightarrow>
               if \<not> is_button_enabled b then Some (Returned False s2)
               else
                 let s3 = asked Click s2 in
                 (case click_result e (tick s2) of
                    ClickStale \<Rightarrow> Some (Returned False s3)
                  | ClickFailed \<Rightarrow> Some (Raised WebDriverException s3)
                  | Clicked \<Rightarrow>
                      (case ensure_table_loaded h e s3 of
                         None \<Rightarrow> None
                       | Some (Raised x s4) \<Rightarrow>
                           if x = TimeoutException then Some (Returned False s4)
                           else Some (Raised x s4)
                       | Some (Returned u s4) \<Rightarrow> Some (Returned True s4)))))"

text \<open>
  \<^verbatim>\<open>_get_current_page_number\<close>: the first span whose text reads as an integer; \<open>None\<close>
  in the list is a span that is empty or does not parse, \<open>None\<close> for the whole list is
  \<^verbatim>\<open>find_elements\<close> raising.
\<close>

fun first_int :: "int option list \<Rightarrow> int option" where
  "first_int [] = None"
| "first_int (None # cs) = first_int cs"
| "first_int (Some n # cs) = Some n"

definition get_current_page_number :: "env \<Rightarrow> 'a world_scheme \<Rightarrow> int option \<times> 'a world_scheme" where
  "get_current_page_number e s =
     ((case page_spans e (tick s) of None \<Rightarrow> None | Some cs \<Rightarrow> first_int cs), asked PageRead s)"

text \<open>The loop of \<^verbatim>\<open>_skip_processed_pages\<close>.\<close>

function skip_loop ::
  "('a scraper_scheme \<Rightarrow> bool \<times> 'a scraper_scheme) \<Rightarrow> env \<Rightarrow> int \<Rightarrow> int \<Rightarrow> int \<Rightarrow> 'a scraper_scheme \<Rightarrow>
     (bool, 'a scraper_scheme) outcome option" where
  "skip_loop h e target attempts max_attempts s =
     (if attempts < max_attempts then
        (case await_clear h s of
           None \<Rightarrow> None
         | Some s1 \<Rightarrow>
             (case get_current_page_number e s1 of
                (page_from_ui, s2) \<Rightarrow>
                  if (case page_from_ui of None \<Rightarrow> False | Some n \<Rightarrow> n \<ge> target)
                  then Some (Returned True s2)
                  else
                    (case go_to_next_page h e s2 of
                       None \<Rightarrow> None
                     | Some (Raised x s3) \<Rightarrow> Some (Raised x s3)
                     | Some (Returned moved s3) \<Rightarrow>
                         if \<not> moved then Some (Returned False s3)
                         else skip_loop h e target (attempts + 1) max_attempts s3)))
      else Some (Returned False s))"
  by pat_completeness auto
termination
  by (relation "measure (\<lambda>(h, e, target, attempts, max_attempts, s). nat (max_attempts - attempts))") auto

declare skip_loop.simps [simp del]

definition skip_budget :: "int \<Rightarrow> int" where
  "skip_budget pages_to_skip = max (pages_to_skip + 3) 5"

definition skip_processed_pages ::
  "(page_scraper \<Rightarrow> bool \<times> page_scraper) \<Rightarrow> env \<Rightarrow> page_scraper \<Rightarrow> (bool, page_scraper) outcome option" where
  "skip_processed_pages h e s =
     (let pages_to_skip = pages_processed s in
      if pages_to_skip \<le> 0 then Some (Returned True s)
      else
        let target_page = pages_to_skip + 1 in
        (case get_current_page_number e s of
           (Some current_page, s1) \<Rightarrow>
             if current_page \<ge> target_page then Some (Returned True s1)
             else
               let pages_to_skip = max (target_page - current_page) 0 in
               if pages_to_skip = 0 then Some (Returned True s1)
               else skip_loop h e target_page 0 (skip_budget pages_to_skip) s1
         | (None, s1) \<Rightarrow> skip_loop h e target_page 0 (skip_budget pages_to_skip) s1))"

section \<open>Scanning a list page and saving progress\<close>

text \<open>\<^verbatim>\<open>href and "/tasks" in href and "/browse" not in href\<close>\<close>

definition wanted :: "string \<Rightarrow> bool" where
  "wanted href = (href \<noteq> [] \<and> sublist ''/tasks'' href \<and> \<not> sublist ''/browse'' href)"

definition add_links :: "string option list \<Rightarrow> string set \<Rightarrow> string set" where
  "add_links ls C =
     fold (\<lambda>l C. case l of None \<Rightarrow> C | Some href \<Rightarrow> if wanted href then insert href C else C) ls C"

text \<open>\<^verbatim>\<open>_extract_links\<close>: a stale row has no links.\<close>

definition extract_links :: "row \<Rightarrow> string option list" where
  "extract_links r = (case links r of None \<Rightarrow> [] | Some ls \<Rightarrow> ls)"

text \<open>\<^verbatim>\<open>Link Scarper/any_run_scraper.py\<close>, \<^verbatim>\<open>_collect_current_page_urls\<close>.\<close>

definition collect_current_page_urls :: "env \<Rightarrow> 'a scraper_scheme \<Rightarrow> 'a scraper_scheme" where
  "collect_current_page_urls e s =
     (let s1 = asked Scan s
      in s1\<lparr>collected_urls := fold (\<lambda>r. add_links (extract_links r)) (rows e (tick s)) (collected_urls s1)\<rparr>)"

definition is_space :: "char \<Rightarrow> bool" where
  "is_space ch = (ch \<in> set [CHR '' '', CHR 0x09, CHR 0x0A, CHR 0x0B, CHR 0x0C, CHR 0x0D])"

definition strip :: "string \<Rightarrow> string" where
  "strip t = rev (dropWhile is_space (rev (dropWhile is_space t)))"

text \<open>
  \<^verbatim>\<open>any_run_scraper.py\<close>, \<^verbatim>\<open>_collect_current_page_urls\<close>: the same scan, which also
  remembers the date text of the last row that shows one.
\<close>

definition scan_row :: "row \<Rightarrow> date_scraper \<Rightarrow> date_scraper" where
  "scan_row r s =
     (let s1 = (case row_time r of
                  None \<Rightarrow> s
                | Some t \<Rightarrow> if strip t \<noteq> [] then s\<lparr>last_processed_date := Some (strip t)\<rparr> else s)
      in s1\<lparr>collected_urls := add_links (extract_links r) (collected_urls s1)\<rparr>)"

definition collect_current_page_urls_days :: "env \<Rightarrow> date_scraper \<Rightarrow> date_scraper" where
  "collect_current_page_urls_days e s = fold scan_row (rows e (tick s)) (asked Scan s)"

text \<open>
  \<^verbatim>\<open>_save_results\<close> writes the sheet; an exception of the write is not caught.
  \<^verbatim>\<open>_save_state\<close> prints and swallows an \<^verbatim>\<open>OSError\<close>. \<^verbatim>\<open>_clear_state\<close> removes the
  state file.
\<close>

definition save_results :: "env \<Rightarrow> 'a scraper_scheme \<Rightarrow> (unit, 'a scraper_scheme) outcome" where
  "save_results e s =
     (let s1 = s\<lparr>tick := Suc (tick s)\<rparr>
      in if disk_ok e (tick s) then Returned () (s1\<lparr>sheet := sorted_list_of_set (collected_urls s)\<rparr>)
         else Raised IOError s1)"

definition save_state_pages :: "config \<Rightarrow> env \<Rightarrow> page_scraper \<Rightarrow> page_scraper" where
  "save_state_pages c e s =
     (if \<not> truthy (state_path c) then s
      else
        let ts = clock e (tick s); s1 = s\<lparr>tick := Suc (Suc (tick s))\<rparr>
        in if disk_ok e (Suc (tick s)) then s1\<lparr>state_file := Doc (state_doc_pages ts s)\<rparr> else s1)"

definition save_state_days :: "config \<Rightarrow> env \<Rightarrow> date_scraper \<Rightarrow> date_scraper" where
  "save_state_days c e s =
     (if \<not> truthy (state_path c) then s
      else
        let ts = clock e (tick s); s1 = s\<lparr>tick := Suc (Suc (tick s))\<rparr>
        in if disk_ok e (Suc (tick s)) then s1\<lparr>state_file := Doc (state_doc_days ts s)\<rparr> else s1)"

definition clear_state :: "config \<Rightarrow> env \<Rightarrow> 'a scraper_scheme \<Rightarrow> 'a scraper_scheme" where
  "clear_state c e s =
     (if \<not> truthy (state_path c) \<or> state_file s = NoFile then s
      else
        let s1 = s\<lparr>tick := Suc (tick s)\<rparr>
        in if disk_ok e (tick s) then s1\<lparr>state_file := NoFile\<rparr> else s1)"

definition persist_progress :: "config \<Rightarrow> env \<Rightarrow> page_scraper \<Rightarrow> (unit, page_scraper) outcome" where
  "persist_progress c e s =
     (case save_results e s of
        Raised x s1 \<Rightarrow> Raised x s1
      | Returned u s1 \<Rightarrow> Returned () (save_state_pages c e s1))"

definition persist_progress_days :: "config \<Rightarrow> env \<Rightarrow> date_scraper \<Rightarrow> (unit, date_scraper) outcome" where
  "persist_progress_days c e s =
     (case save_results e s of
        Raised x s1 \<Rightarrow> Raised x s1
      | Returned u s1 \<Rightarrow> Returned () (save_state_days c e s1))"

text \<open>The end of both \<^verbatim>\<open>run\<close> methods: write the sheet, remove the state file, return the URLs.\<close>

definition finish :: "config \<Rightarrow> env \<Rightarrow> 'a scraper_scheme \<Rightarrow> (string list, 'a scraper_scheme) outcome" where
  "finish c e s =
     (case save_results e s of
        Raised x s1 \<Rightarrow> Raised x s1
      | Returned u s1 \<Rightarrow> Returned (sorted_list_of_set (collected_urls s)) (clear_state c e s1))"

section \<open>The page-cursor collector (Link Scarper/any\_run\_scraper.py)\<close>

partial_function (option) page_loop :: "config \<Rightarrow> env \<Rightarrow> page_scraper \<Rightarrow> (unit, page_scraper) outcome option" where
  "page_loop c e s =
     (case await_clear (handle_bot_challenge c e) s of
        None \<Rightarrow> None
      | Some s1 \<Rightarrow>
          let s2 = collect_current_page_urls e s1;
              s3 = s2\<lparr>pages_processed := pages_processed s2 + 1\<rparr>
          in (case persist_progress c e s3 of
                Raised x s4 \<Rightarrow> Some (Raised x s4)
              | Returned u s4 \<Rightarrow>
                  (case go_to_next_page (handle_bot_challenge c e) e (snd (get_current_page_number e s4)) of
                     None \<Rightarrow> None
                   | Some (Raised x s5) \<Rightarrow> Some (Raised x s5)
                   | Some (Returned moved s5) \<Rightarrow>
                       if moved then page_loop c e s5 else Some (Returned () s5))))"

text \<open>
  \<^verbatim>\<open>run\<close>. Opening the base URL and \<^verbatim>\<open>_ensure_authenticated\<close> are logged as two
  events; the login dialogue itself is not modelled.
\<close>

definition run_pages :: "config \<Rightarrow> env \<Rightarrow> page_scraper \<Rightarrow> (string list, page_scraper) outcome option" where
  "run_pages c e s =
     (case ensure_table_loaded (handle_bot_challenge c e) e (did Authenticate (did Navigate s)) of
        None \<Rightarrow> None
      | Some (Raised x s1) \<Rightarrow> Some (Raised x s1)
      | Some (Returned u s1) \<Rightarrow>
          (case skip_processed_pages (handle_bot_challenge c e) e s1 of
             None \<Rightarrow> None
           | Some (Raised x s2) \<Rightarrow> Some (Raised x s2)
           | Some (Returned aligned s2) \<Rightarrow>
               if \<not> aligned then Some (finish c e s2)
               else
                 (case page_loop c e s2 of
                    None \<Rightarrow> None
                  | Some (Raised x s3) \<Rightarrow> Some (Raised x s3)
                  | Some (Returned u s3) \<Rightarrow> Some (finish c e s3))))"

section \<open>The date-bucket collector (any\_run\_scraper.py)\<close>

definition apply_date_filter_for_day ::
  "config \<Rightarrow> env \<Rightarrow> date_scraper \<Rightarrow> (bool, date_scraper) outcome option" where
  "apply_date_filter_for_day c e s =
     (if \<not> filter_ok e (tick s) then Some (Returned False (asked FilterDay s))
      else
        (case ensure_table_loaded (handle_bot_challenge_days c e) e (asked FilterDay s) of
           None \<Rightarrow> None
         | Some (Raised x s1) \<Rightarrow>
             if x = TimeoutException \<or> x = NoSuchElementException then Some (Returned False s1)
             else Some (Raised x s1)
         | Some (Returned u s1) \<Rightarrow> Some (Returned True s1)))"

partial_function (option) day_pages :: "config \<Rightarrow> env \<Rightarrow> date_scraper \<Rightarrow> (unit, date_scraper) outcome option" where
  "day_pages c e s =
     (case await_clear (handle_bot_challenge_days c e) s of
        None \<Rightarrow> None
      | Some s1 \<Rightarrow>
          (case persist_progress_days c e (collect_current_page_urls_days e s1) of
             Raised x s2 \<Rightarrow> Some (Raised x s2)
           | Returned u s2 \<Rightarrow>
               (case go_to_next_page (handle_bot_challenge_days c e) e s2 of
                  None \<Rightarrow> None
                | Some (Raised x s3) \<Rightarrow> Some (Raised x s3)
                | Some (Returned moved s3) \<Rightarrow>
                    if moved then day_pages c e s3 else Some (Returned () s3))))"

definition leap_year :: "nat \<Rightarrow> bool" where
  "leap_year y = (y mod 4 = 0 \<and> (y mod 100 \<noteq> 0 \<or> y mod 400 = 0))"

definition days_in_month :: "nat \<Rightarrow> nat \<Rightarrow> nat" where
  "days_in_month y m =
     (if m = 2 then (if leap_year y then 29 else 28)
      else if m = 4 \<or> m = 6 \<or> m = 9 \<or> m = 11 then 30 else 31)"

text \<open>\<^verbatim>\<open>current_date - timedelta(days=1)\<close>; \<open>None\<close> is the \<^verbatim>\<open>OverflowError\<close> before year 1.\<close>

definition prev_day :: "datetime \<Rightarrow> datetime option" where
  "prev_day d =
     (if day d > 1 then Some (d\<lparr>day := day d - 1\<rparr>)
      else if month d > 1 then Some (d\<lparr>month := month d - 1, day := days_in_month (year d) (month d - 1)\<rparr>)
      else if year d > 1 then Some (d\<lparr>year := year d - 1, month := 12, day := 31\<rparr>)
      else None)"

partial_function (option) day_loop ::
  "config \<Rightarrow> env \<Rightarrow> datetime \<Rightarrow> date_scraper \<Rightarrow> (unit, date_scraper) outcome option" where
  "day_loop c e current_date s =
     (case apply_date_filter_for_day c e (s\<lparr>current_scraping_date := Some current_date\<rparr>) of
        None \<Rightarrow> None
      | Some (Raised x s1) \<Rightarrow> Some (Raised x s1)
      | Some (Returned applied s1) \<Rightarrow>
          if \<not> applied then Some (Returned () s1)
          else
            (case day_pages c e s1 of
               None \<Rightarrow> None
             | Some (Raised x s2) \<Rightarrow> Some (Raised x s2)
             | Some (Returned u s2) \<Rightarrow>
                 (case prev_day current_date of
                    None \<Rightarrow> Some (Raised OverflowError s2)
                  | Some d \<Rightarrow> day_loop c e d s2)))"

definition run_days :: "config \<Rightarrow> env \<Rightarrow> date_scraper \<Rightarrow> (string list, date_scraper) outcome option" where
  "run_days c e s =
     (case ensure_table_loaded (handle_bot_challenge_days c e) e (did Authenticate (did Navigate s)) of
        None \<Rightarrow> None
      | Some (Raised x s1) \<Rightarrow> Some (Raised x s1)
      | Some (Returned u s1) \<Rightarrow>
          (case day_loop c e
                  (case current_scraping_date s1 of Some d \<Rightarrow> d | None \<Rightarrow> midnight (today e)) s1 of
             None \<Rightarrow> None
           | Some (Raised x s2) \<Rightarrow> Some (Raised x s2)
           | Some (Returned u s2) \<Rightarrow> Some (finish c e s2)))"

section \<open>Challenge handling of the report scraper (scraper.py)\<close>






section \<open>The challenge probe\<close>

text \<open>
  What the probe sees of a page: its elements, each with the texts of its own text nodes,
  its string value (all text below it), whether it is displayed (\<open>None\<close> when
  \<^verbatim>\<open>is_displayed()\<close> raises) and the CSS selectors it matches; and the CSS selectors the
  browser accepts. Matching a CSS selector is the browser's business.
\<close>

record element =
  text_nodes :: "string list"
  string_value :: string
  displayed :: "bool option"
  matches_css :: "string \<Rightarrow> bool"

record page =
  elements :: "element list"
  valid_css :: "string \<Rightarrow> bool"

text \<open>
  The locators the probes use. \<open>TextHas\<close> is the XPath
  \<^verbatim>\<open>//*[contains(text(), p1) or contains(text(), p2)]\<close>: \<^verbatim>\<open>text()\<close> as a string is the
  element's first text node, compared as it stands. \<open>LowerHas\<close> is
  \<^verbatim>\<open>//*[contains(translate(normalize-space(.), 'A..Z', 'a..z'), p1) and ...]\<close>.
\<close>

datatype locator = TextHas "string list" | LowerHas "string list" | Css string

definition xml_space :: "char \<Rightarrow> bool" where
  "xml_space ch = (ch \<in> set [CHR '' '', CHR 0x09, CHR 0x0A, CHR 0x0D])"

fun squeeze :: "string \<Rightarrow> string" where
  "squeeze [] = []"
| "squeeze (ch # cs) =
     (if xml_space ch then
        (case squeeze cs of
           [] \<Rightarrow> []
         | d # ds \<Rightarrow> if d = CHR '' '' then d # ds else CHR '' '' # d # ds)
      else ch # squeeze cs)"

definition normalize_space :: "string \<Rightarrow> string" where
  "normalize_space t = (case squeeze t of [] \<Rightarrow> [] | d # ds \<Rightarrow> if d = CHR '' '' then ds else d # ds)"

definition first_text :: "element \<Rightarrow> string" where
  "first_text el = (case text_nodes el of [] \<Rightarrow> [] | t # ts \<Rightarrow> t)"

definition lower_has :: "string list \<Rightarrow> string \<Rightarrow> bool" where
  "lower_has phrases t = list_all (\<lambda>ph. sublist ph (lower (normalize_space t))) phrases"

definition find_elements :: "page \<Rightarrow> locator \<Rightarrow> element list option" where
  "find_elements p loc =
     (case loc of
        TextHas phrases \<Rightarrow>
          Some (filter (\<lambda>el. list_ex (\<lambda>ph. sublist ph (first_text el)) phrases) (elements p))
      | LowerHas phrases \<Rightarrow>
          Some (filter (\<lambda>el. lower_has phrases (string_value el)) (elements p))
      | Css sel \<Rightarrow>
          if valid_css p sel then Some (filter (\<lambda>el. matches_css el sel) (elements p)) else None)"

text \<open>
  The loop over the selectors: an exception of \<^verbatim>\<open>find_elements\<close> skips the selector, an
  exception of \<^verbatim>\<open>is_displayed\<close> skips the element.
\<close>

definition shows_one :: "page \<Rightarrow> locator list \<Rightarrow> bool" where
  "shows_one p locs =
     list_ex (\<lambda>loc. case find_elements p loc of
                      None \<Rightarrow> False
                    | Some els \<Rightarrow> list_ex (\<lambda>el. displayed el = Some True) els) locs"

definition challenge_containers :: string where
  "challenge_containers = ''form#challenge-form, div#cf-spinner, div[class*='cf-challenge'], div[class*='botcheck']''"

definition challenge_frames :: string where
  "challenge_frames = ''iframe[src*='challenge'], iframe[src*='turnstile'], iframe[id*='cf-chl'], iframe[title*='challenge']''"

text \<open>\<^verbatim>\<open>[seg.strip() for seg in additional.split(",") if seg.strip()]\<close>\<close>

fun split_commas :: "string \<Rightarrow> string list" where
  "split_commas [] = [[]]"
| "split_commas (ch # cs) =
     (if ch = CHR '','' then [] # split_commas cs
      else (case split_commas cs of [] \<Rightarrow> [[ch]] | seg # segs \<Rightarrow> (ch # seg) # segs))"

definition extra_selectors :: "config \<Rightarrow> locator list" where
  "extra_selectors c =
     (case bot_check_selector c of
        None \<Rightarrow> []
      | Some additional \<Rightarrow> map Css (filter (\<lambda>seg. seg \<noteq> []) (map strip (split_commas additional))))"

text \<open>
  \<^verbatim>\<open>Link Scarper/any_run_scraper.py\<close>, \<^verbatim>\<open>_is_bot_challenge_present\<close>: the two phrases
  are matched as they are written.
\<close>

definition is_bot_challenge_present_pages :: "config \<Rightarrow> page \<Rightarrow> bool" where
  "is_bot_challenge_present_pages c p =
     shows_one p
       ([TextHas [''Suspicious activity'', ''confirm that you are not a bot''],
         Css challenge_containers, Css challenge_frames] @ extra_selectors c)"

text \<open>
  \<^verbatim>\<open>scraper.py\<close> and \<^verbatim>\<open>any_run_scraper.py\<close>, \<^verbatim>\<open>_is_bot_challenge_present\<close>: first the
  lower-cased search for both \<^verbatim>\<open>we noticed\<close> and \<^verbatim>\<open>requests\<close>, inside one \<^verbatim>\<open>try\<close>
  (\<^verbatim>\<open>any(...)\<close> stops at the first displayed element, and an exception before that
  abandons the search); then the loop over the selectors.
\<close>

fun any_displayed :: "element list \<Rightarrow> bool option" where
  "any_displayed [] = Some False"
| "any_displayed (el # els) =
     (case displayed el of
        None \<Rightarrow> None
      | Some True \<Rightarrow> Some True
      | Some False \<Rightarrow> any_displayed els)"

definition is_bot_challenge_present :: "page \<Rightarrow> bool" where
  "is_bot_challenge_present p =
     (if (case find_elements p (LowerHas [''we noticed'', ''requests'']) of
            None \<Rightarrow> None
          | Some els \<Rightarrow> any_displayed els) = Some True
      then True
      else shows_one p
             [TextHas [''We noticed a large number of requests'', ''We noticed large number of requests''],
              Css challenge_containers, Css challenge_frames])"

text \<open>A page with one displayed element that holds the given text and matches no selector.\<close>

definition notice :: "string \<Rightarrow> page" where
  "notice t =
     \<lparr>elements = [\<lparr>text_nodes = [t], string_value = t, displayed = Some True,
                    matches_css = (\<lambda>sel. False)\<rparr>],
      valid_css = (\<lambda>sel. True)\<rparr>"

section \<open>Reading the log\<close>


definition is_alert :: "event \<Rightarrow> bool" where
  "is_alert ev = (case ev of Alert ok \<Rightarrow> True | _ \<Rightarrow> False)"

definition alerts :: "event list \<Rightarrow> nat" where
  "alerts L = length (filter is_alert L)"







definition state_of :: "('a, 's) outcome \<Rightarrow> 's" where
  "state_of out = (case out of Returned v s \<Rightarrow> s | Raised x s \<Rightarrow> s)"

text \<open>Calls of \<^verbatim>\<open>_go_to_next_page\<close> that got past the gate: each logs one lookup of the button.\<close>

definition advances :: "event list \<Rightarrow> nat" where
  "advances L = count_list L Lookup"

section \<open>Example worlds\<close>

definition quiet :: env where
  "quiet = \<lparr>challenge = (\<lambda>t. False), clock = (\<lambda>t. 100 + 10 * real t), delivery = (\<lambda>t. True),
            page_spans = (\<lambda>t. Some [Some 1]), next_button = (\<lambda>t. NoButton),
            click_result = (\<lambda>t. Clicked), table_present = (\<lambda>t. True), rows = (\<lambda>t. []),
            disk_ok = (\<lambda>t. True), filter_ok = (\<lambda>t. True), element_present = (\<lambda>t. True),
            body_len = (\<lambda>t. Some 500), today = nov3\<rparr>"









text \<open>
  The page the live pagination control shows when the resume starts, how far it is behind
  the page to resume at, how many advance attempts a step made, and how many row scans a
  log holds.
\<close>

definition live_page :: "env \<Rightarrow> 'a world_scheme \<Rightarrow> int option" where
  "live_page e s = fst (get_current_page_number e s)"

definition pages_behind :: "env \<Rightarrow> page_scraper \<Rightarrow> int" where
  "pages_behind e s =
     (case live_page e s of
        Some cur \<Rightarrow> pages_processed s + 1 - cur
      | None \<Rightarrow> pages_processed s)"


definition scans :: "event list \<Rightarrow> nat" where
  "scans L = count_list L Scan"

definition next_enabled :: button where
  "next_enabled = \<lparr>disabled_attr = None, aria_disabled = None, class_attr = Some ''next''\<rparr>"

definition stale_next :: env where
  "stale_next = quiet\<lparr>next_button := (\<lambda>t. Clickable next_enabled), click_result := (\<lambda>t. ClickStale)\<rparr>"

text \<open>What one call of a handler does to the state when the challenge is absent.\<close>

definition calm :: "'a scraper_scheme \<Rightarrow> 'a scraper_scheme" where
  "calm t = (asked (Probe False) t)\<lparr>bot_notified := False\<rparr>"


text \<open>One round of the resume loop when nothing is in the way: gate, page read, next page.\<close>

definition hop :: "page_scraper \<Rightarrow> page_scraper" where
  "hop t = calm (asked TableWait (asked Click (asked Lookup (calm (asked PageRead (calm t))))))"

text \<open>The links of the rows of a list page that the scan keeps.\<close>

definition page_links :: "row list \<Rightarrow> string set" where
  "page_links rs = set (concat (map (\<lambda>r. concat (map (\<lambda>l. case l of None \<Rightarrow> [] | Some href \<Rightarrow> if wanted href then [href] else []) (extract_links r))) rs))"

definition two_rows :: env where
  "two_rows = quiet\<lparr>rows := (\<lambda>t.
     [\<lparr>row_time = Some ''04 November 2026, 10:15'',
       links = Some [Some ''https://app.any.run/tasks/ab12'', Some ''https://app.any.run/tasks/ab12/browse'']\<rparr>,
      \<lparr>row_time = None, links = Some [Some ''https://app.any.run/tasks/ab12'', None]\<rparr>,
      \<lparr>row_time = None, links = None\<rparr>])\<rparr>"

section \<open>Properties of the report scraper\<close>

text \<open>
  The regular expression finds an id exactly when the URL holds \<^verbatim>\<open>/tasks/\<close> followed at
  once by a character of \<^verbatim>\<open>[a-f0-9-]\<close>.
\<close>

lemma extract_task_id_Some_iff:
  "(\<exists>t. extract_task_id u = Some t) \<longleftrightarrow>
   (\<exists>pre c rest. u = pre @ ''/tasks/'' @ c # rest \<and> hexdash c)"
proof (induction u)
  case Nil
  show ?case by simp
next
  case (Cons a u)
  show ?case
  proof (cases "prefix ''/tasks/'' (a # u) \<and> takeWhile hexdash (drop 7 (a # u)) \<noteq> []")
    case True
    then obtain r where r: "a # u = ''/tasks/'' @ r" by (auto simp: prefix_def)
    with True have "takeWhile hexdash r \<noteq> []" by simp
    then obtain c rest where "r = c # rest" "hexdash c"
      by (cases r) (auto split: if_splits)
    with r have "a # u = [] @ ''/tasks/'' @ c # rest \<and> hexdash c" by simp
    then have R: "\<exists>pre c rest. a # u = pre @ ''/tasks/'' @ c # rest \<and> hexdash c" by blast
    from True have "\<exists>t. extract_task_id (a # u) = Some t"
      by (simp only: extract_task_id.simps simp_thms if_True) blast
    with R show ?thesis by blast
  next
    case False
    have "(\<exists>pre c rest. a # u = pre @ ''/tasks/'' @ c # rest \<and> hexdash c) \<longleftrightarrow>
          (\<exists>pre c rest. u = pre @ ''/tasks/'' @ c # rest \<and> hexdash c)" (is "?L \<longleftrightarrow> ?R")
    proof
      assume ?L
      then obtain pre c rest where e: "a # u = pre @ ''/tasks/'' @ c # rest" and h: "hexdash c"
        by blast
      show ?R
      proof (cases pre)
        case Nil
        with e have p: "prefix ''/tasks/'' (a # u)" by (simp add: prefix_def)
        from Nil e have "drop 7 (a # u) = c # rest" by simp
        with h have "takeWhile hexdash (drop 7 (a # u)) \<noteq> []" by simp
        with p False show ?thesis by blast
      next
        case (Cons b pre')
        with e have "u = pre' @ ''/tasks/'' @ c # rest" by simp
        with h show ?thesis by blast
      qed
    next
      assume ?R
      then obtain pre c rest where "u = pre @ ''/tasks/'' @ c # rest" "hexdash c" by blast
      then have "a # u = (a # pre) @ ''/tasks/'' @ c # rest \<and> hexdash c" by simp
      then show ?L by blast
    qed
    moreover from False have "extract_task_id (a # u) = extract_task_id u"
      by (simp only: extract_task_id.simps simp_thms if_False)
    ultimately show ?thesis using Cons.IH by simp
  qed
qed

lemma scrape_report_no_id:
  "extract_task_id u = None \<Longrightarrow> scrape_report b u s = (None, s)"
  by (simp add: scrape_report_def)


lemma scrape_report_frame:
  "scrape_report b u s = (r, s1) \<Longrightarrow>
     processed_urls s1 = processed_urls s \<and> checkpoint s1 = checkpoint s"
  by (auto simp: scrape_report_def Let_def split: option.splits page_result.splits write_result.splits)

lemma scrape_report_nav:
  "scrape_report b u s = (r, s1) \<Longrightarrow>
     nav_log s1 = (if extract_task_id u = None then nav_log s else nav_log s @ [u])"
  by (auto simp: scrape_report_def Let_def split: option.splits page_result.splits write_result.splits)

lemma scrape_report_Some:
  "scrape_report b u s = (Some rep, s1) \<Longrightarrow>
     \<exists>tid. extract_task_id u = Some tid \<and> task_id rep = tid \<and> url rep = u \<and>
           out_files s1 (report_name tid) = Some (Complete rep)"
  by (auto simp: scrape_report_def Let_def split: option.splits page_result.splits write_result.splits)




lemma run_loop_processed_sub:
  "processed_urls (run_loop env i us s) \<subseteq>
     processed_urls s \<union> {v \<in> set us. extract_task_id v \<noteq> None}"
proof (induction us arbitrary: i s)
  case Nil
  show ?case by simp
next
  case (Cons u us)
  obtain r s1 where sr: "scrape_report (env i) u s = (r, s1)" by (cases "scrape_report (env i) u s")
  from scrape_report_frame[OF sr] have fr: "processed_urls s1 = processed_urls s" by simp
  show ?case
  proof (cases r)
    case None
    with sr fr Cons.IH[where i="Suc i" and s=s1] show ?thesis by auto
  next
    case (Some rep)
    let ?s2 = "save_checkpoint (ckpt_ok (env i)) (s1\<lparr>processed_urls := insert u (processed_urls s1)\<rparr>)"
    have p2: "processed_urls ?s2 = insert u (processed_urls s)"
      using fr by (simp_all add: save_checkpoint_def)
    from scrape_report_Some[OF sr[unfolded Some]] have "extract_task_id u \<noteq> None" by auto
    with Some sr p2 Cons.IH[where i="Suc i" and s="?s2"] show ?thesis by auto
  qed
qed

lemma run_loop_Cons_None:
  "scrape_report (env i) u s = (None, s1) \<Longrightarrow>
     run_loop env i (u # us) s = run_loop env (Suc i) us s1"
  by simp

lemma run_loop_Cons_Some:
  "scrape_report (env i) u s = (Some r, s1) \<Longrightarrow>
     run_loop env i (u # us) s =
       run_loop env (Suc i) us
         (save_checkpoint (ckpt_ok (env i)) (s1\<lparr>processed_urls := insert u (processed_urls s1)\<rparr>))"
  by simp

lemma run_loop_processed_mono:
  "processed_urls s \<subseteq> processed_urls (run_loop env i us s)"
proof (induction us arbitrary: i s)
  case Nil
  show ?case by simp
next
  case (Cons u us)
  obtain r s1 where sr: "scrape_report (env i) u s = (r, s1)" by (cases "scrape_report (env i) u s")
  from scrape_report_frame[OF sr] have fr: "processed_urls s1 = processed_urls s" by simp
  show ?case
  proof (cases r)
    case None
    with sr have "run_loop env i (u # us) s = run_loop env (Suc i) us s1"
      by (simp only: run_loop_Cons_None)
    with fr Cons.IH[where i="Suc i" and s=s1] show ?thesis by simp
  next
    case (Some rep)
    let ?s2 = "save_checkpoint (ckpt_ok (env i)) (s1\<lparr>processed_urls := insert u (processed_urls s1)\<rparr>)"
    have p2: "processed_urls ?s2 = insert u (processed_urls s)"
      using fr by (simp add: save_checkpoint_def)
    from Some sr have "run_loop env i (u # us) s = run_loop env (Suc i) us ?s2"
      by (simp only: run_loop_Cons_Some)
    with p2 Cons.IH[where i="Suc i" and s="?s2"] show ?thesis by auto
  qed
qed

lemma run_loop_ckpt_sub:
  "ckpt_urls (run_loop env i us s) \<subseteq> ckpt_urls s \<union> processed_urls (run_loop env i us s)"
proof (induction us arbitrary: i s)
  case Nil
  show ?case by simp
next
  case (Cons u us)
  obtain r s1 where sr: "scrape_report (env i) u s = (r, s1)" by (cases "scrape_report (env i) u s")
  from scrape_report_frame[OF sr]
  have fr: "processed_urls s1 = processed_urls s" "checkpoint s1 = checkpoint s" by simp_all
  show ?case
  proof (cases r)
    case None
    with sr have e: "run_loop env i (u # us) s = run_loop env (Suc i) us s1"
      by (simp only: run_loop_Cons_None)
    have "ckpt_urls s1 = ckpt_urls s" using fr by (simp add: ckpt_urls_def)
    with Cons.IH[where i="Suc i" and s=s1] show ?thesis unfolding e by simp
  next
    case (Some rep)
    let ?s2 = "save_checkpoint (ckpt_ok (env i)) (s1\<lparr>processed_urls := insert u (processed_urls s1)\<rparr>)"
    have c2: "ckpt_urls ?s2 \<subseteq> ckpt_urls s \<union> processed_urls ?s2"
      using fr by (auto simp: save_checkpoint_def ckpt_urls_def)
    from Some sr have e: "run_loop env i (u # us) s = run_loop env (Suc i) us ?s2"
      by (simp only: run_loop_Cons_Some)
    from c2 Cons.IH[where i="Suc i" and s="?s2"] run_loop_processed_mono[where s="?s2" and env=env and i="Suc i" and us=us]
    show ?thesis unfolding e by blast
  qed
qed

lemma run_loop_nav_sub:
  "set (nav_log (run_loop env i us s)) \<subseteq>
     set (nav_log s) \<union> {v \<in> set us. extract_task_id v \<noteq> None}"
proof (induction us arbitrary: i s)
  case Nil
  show ?case by simp
next
  case (Cons u us)
  obtain r s1 where sr: "scrape_report (env i) u s = (r, s1)" by (cases "scrape_report (env i) u s")
  from scrape_report_nav[OF sr] have n1: "set (nav_log s1) \<subseteq> set (nav_log s) \<union> {v. v = u \<and> extract_task_id v \<noteq> None}"
    by (auto split: if_splits)
  let ?s2 = "save_checkpoint (ckpt_ok (env i)) (s1\<lparr>processed_urls := insert u (processed_urls s1)\<rparr>)"
  have n2: "nav_log ?s2 = nav_log s1" by (simp add: save_checkpoint_def)
  show ?case
  proof (cases r)
    case None
    with sr n1 Cons.IH[where i="Suc i" and s=s1] show ?thesis by auto
  next
    case (Some rep)
    with sr n1 n2 Cons.IH[where i="Suc i" and s="?s2"] show ?thesis by auto
  qed
qed

text \<open>
  Claim C10. For a URL from which no task id can be extracted, \<^verbatim>\<open>scrape_report\<close>
  returns \<^verbatim>\<open>None\<close> and leaves the whole state as it was: no navigation is logged and
  no record file is written. The main loop passes over such a URL without any effect, so a
  run never adds it to the processed set or to the checkpoint, and never navigates to it.
\<close>

theorem no_task_id_skipped:
  "extract_task_id u = None \<Longrightarrow>
     scrape_report b u s = (None, s) \<and>
     run_loop env i (u # us) s = run_loop env (Suc i) us s \<and>
     (u \<notin> processed_urls s \<longrightarrow> u \<notin> processed_urls (run env urls s)) \<and>
     (u \<notin> processed_urls s \<and> u \<notin> ckpt_urls s \<longrightarrow> u \<notin> ckpt_urls (run env urls s)) \<and>
     (u \<notin> set (nav_log s) \<longrightarrow> u \<notin> set (nav_log (run env urls s)))"
proof -
  assume n: "extract_task_id u = None"
  let ?us = "filter (\<lambda>u. u \<notin> processed_urls s) urls"
  have a: "scrape_report b u s = (None, s)" for b :: "'a browse"
    using n by (rule scrape_report_no_id)
  have b: "run_loop env i (u # us) s = run_loop env (Suc i) us s"
    using a[of "env i"] by (simp only: run_loop_Cons_None)
  have p: "processed_urls (run env urls s) \<subseteq> processed_urls s \<union> {v \<in> set ?us. extract_task_id v \<noteq> None}"
    unfolding run_def by (rule run_loop_processed_sub)
  have c: "ckpt_urls (run env urls s) \<subseteq> ckpt_urls s \<union> processed_urls (run env urls s)"
    unfolding run_def by (rule run_loop_ckpt_sub)
  have v: "set (nav_log (run env urls s)) \<subseteq> set (nav_log s) \<union> {v \<in> set ?us. extract_task_id v \<noteq> None}"
    unfolding run_def by (rule run_loop_nav_sub)
  from n p have p': "u \<notin> processed_urls s \<longrightarrow> u \<notin> processed_urls (run env urls s)" by auto
  from p' c have c': "u \<notin> processed_urls s \<and> u \<notin> ckpt_urls s \<longrightarrow> u \<notin> ckpt_urls (run env urls s)" by auto
  from n v have v': "u \<notin> set (nav_log s) \<longrightarrow> u \<notin> set (nav_log (run env urls s))" by auto
  from a b p' c' v' show ?thesis by blast
qed

theorem no_task_id_skipped_witness:
  "extract_task_id ''https://app.any.run/submissions'' = None \<and>
   scrape_report browse_ok ''https://app.any.run/submissions'' rstate0 = (None, rstate0) \<and>
   ''https://app.any.run/submissions'' \<notin>
     processed_urls (run (\<lambda>i. browse_ok)
        [''https://app.any.run/submissions'', ''https://app.any.run/tasks/ab12''] rstate0)"
proof -
  have h: "extract_task_id ''https://app.any.run/submissions'' = None"
    by (simp add: hexdash_def)
  have e: "''https://app.any.run/submissions'' \<notin> processed_urls rstate0"
    by (simp add: rstate0_def)
  from e h no_task_id_skipped[OF h, where b=browse_ok and s=rstate0 and env="\<lambda>i. browse_ok"
      and urls="[''https://app.any.run/submissions'', ''https://app.any.run/tasks/ab12'']"]
  show ?thesis by blast
qed





section \<open>Properties of the persisted documents\<close>

lemma str_items_map_JStr: "str_items (map JStr xs) = xs"
  by (induction xs) simp_all







lemma obj_get_simps:
  "obj_get [] k d = d"
  "obj_get (kvs @ [(k', v)]) k d = (if k = k' then v else obj_get kvs k d)"
  by (simp_all add: obj_get_def)

text \<open>
  The page-cursor collector restores what it saved: the collected set (joined to what is in
  memory) and the page counter; a field it does not know is ignored.
\<close>

lemma page_state_round_trip:
  assumes "finite (collected_urls s)" "0 \<le> pages_processed s" "truthy (state_path c)"
  shows "load_state_pages c (s0\<lparr>state_file := Doc (state_doc_pages ts s)\<rparr>) =
     Inr (s0\<lparr>state_file := Doc (state_doc_pages ts s),
             collected_urls := collected_urls s0 \<union> collected_urls s,
             pages_processed := pages_processed s\<rparr>)"
  using assms
  by (simp add: load_state_pages_def state_doc_pages_def load_urls_def obj_get_def str_items_map_JStr)

lemma load_state_pages_extra_field:
  assumes "k \<noteq> ''collected_urls''" "k \<noteq> ''pages_processed''"
  shows "load_state_pages c (s0\<lparr>state_file := Doc (JObj (kvs @ [(k, v)]))\<rparr>) =
         map_sum id (\<lambda>t. t\<lparr>state_file := Doc (JObj (kvs @ [(k, v)]))\<rparr>)
           (load_state_pages c (s0\<lparr>state_file := Doc (JObj kvs)\<rparr>))"
  using assms
  by (auto simp: load_state_pages_def load_urls_def obj_get_def Let_def split: json.splits option.splits)

lemma days_urls_round_trip:
  assumes "finite (collected_urls s)" "truthy (state_path c)"
  shows "\<exists>t. load_state_days strptime c (s0\<lparr>state_file := Doc (state_doc_days ts s)\<rparr>) = Inr t \<and>
     collected_urls t = collected_urls s0 \<union> collected_urls s"
  using assms
  by (auto simp: load_state_days_def state_doc_days_def load_urls_def obj_get_def str_items_map_JStr
      opt_str_def Let_def split: option.splits)

text \<open>
  Claim C3 fails on the date-bucket collector. \<^verbatim>\<open>_save_state\<close> writes the resume day
  under \<^verbatim>\<open>current_scraping_date\<close>, and \<^verbatim>\<open>_load_state\<close> never reads that key: what is
  loaded does not depend on the resume day that was saved. With no row date seen yet
  (\<^verbatim>\<open>last_processed_date\<close> is \<^verbatim>\<open>None\<close>) and the cursor on 3 November 2026, a save
  followed by a load restores the collected set and leaves the resume day unset.
\<close>

theorem resume_day_not_restored:
  "load_state_days strptime c
      (s0\<lparr>state_file := Doc (state_doc_days ts (s\<lparr>current_scraping_date := d\<rparr>))\<rparr>) =
   map_sum id (\<lambda>t. t\<lparr>state_file := Doc (state_doc_days ts (s\<lparr>current_scraping_date := d\<rparr>))\<rparr>)
     (load_state_days strptime c (s0\<lparr>state_file := Doc (state_doc_days ts s)\<rparr>)) \<and>
   load_state_days strptime cfg0
      (fresh_days\<lparr>state_file := Doc (state_doc_days ts
          (fresh_days\<lparr>collected_urls := {''https://app.any.run/tasks/ab12''},
                       current_scraping_date := Some nov3\<rparr>))\<rparr>) =
   Inr (fresh_days\<lparr>state_file := Doc (state_doc_days ts
          (fresh_days\<lparr>collected_urls := {''https://app.any.run/tasks/ab12''},
                       current_scraping_date := Some nov3\<rparr>)),
          collected_urls := {''https://app.any.run/tasks/ab12''},
          current_scraping_date := None\<rparr>)"
  by (auto simp: load_state_days_def state_doc_days_def load_urls_def obj_get_def str_items_map_JStr
      opt_str_def Let_def cfg0_def truthy_def fresh_days_def split: option.splits)

section \<open>Properties of challenge handling\<close>








lemma alerts_append: "alerts (L @ M) = alerts L + alerts M"
  by (simp add: alerts_def)






lemma await_clear_unfold:
  "await_clear h s = (if fst (h s) then await_clear h (snd (h s)) else Some (snd (h s)))"
proof -
  have "await_clear h s = (case h s of (b, s') \<Rightarrow> if b then await_clear h s' else Some s')"
    by (rule await_clear.simps)
  also have "\<dots> = (if fst (h s) then await_clear h (snd (h s)) else Some (snd (h s)))"
    by (cases "h s") simp
  finally show ?thesis .
qed

















section \<open>Properties of pagination\<close>


lemma await_clear_keeps:
  "await_clear h s = Some s' \<Longrightarrow> (\<forall>t. q (snd (h t)) = q t) \<Longrightarrow> q s' = q s"
proof (induction rule: await_clear.raw_induct[rotated 1, consumes 1])
  case (1 rec h s s')
  show ?case
  proof (cases "fst (h s)")
    case True
    with 1(2) have "rec h (snd (h s)) = Some s'" by (simp add: case_prod_beta)
    from 1(1)[OF this 1(3)] 1(3) show ?thesis by simp
  next
    case False
    with 1(2) have "s' = snd (h s)" by (simp add: case_prod_beta)
    with 1(3) show ?thesis by simp
  qed
qed

lemma ensure_table_loaded_keeps:
  "ensure_table_loaded h e s = Some out \<Longrightarrow> (\<forall>t. q (snd (h t)) = q t) \<Longrightarrow>
     (\<forall>t. q (asked TableWait t) = q t) \<Longrightarrow> q (state_of out) = q s"
proof (induction rule: ensure_table_loaded.raw_induct[rotated 1, consumes 1])
  case (1 rec h e s out)
  let ?t = "h (asked TableWait s)"
  have k: "q (snd ?t) = q s" using 1(3) 1(4) by simp
  show ?case
  proof (cases "fst ?t")
    case True
    with 1(2) have "rec h e (snd ?t) = Some out" by (simp add: case_prod_beta)
    from 1(1)[OF this 1(3) 1(4)] k show ?thesis by simp
  next
    case False
    with 1(2) have "state_of out = snd ?t"
      by (auto simp add: case_prod_beta state_of_def split: if_splits)
    with k show ?thesis by simp
  qed
qed

lemma go_to_next_page_cases:
  assumes "go_to_next_page h e s = Some out"
  obtains (looked) s1 where "await_clear h s = Some s1" "state_of out = asked Lookup s1"
  | (clicked) s1 where "await_clear h s = Some s1" "state_of out = asked Click (asked Lookup s1)"
  | (waited) s1 out' where "await_clear h s = Some s1"
      "ensure_table_loaded h e (asked Click (asked Lookup s1)) = Some out'"
      "state_of out = state_of out'"
proof -
  from assms obtain s1 where g: "await_clear h s = Some s1"
    by (cases "await_clear h s") (simp_all add: go_to_next_page_def)
  show thesis
  proof (cases "next_button e (tick s1)")
    case NoButton
    with assms g have "state_of out = asked Lookup s1"
      by (auto simp: go_to_next_page_def Let_def state_of_def)
    with g show ?thesis by (rule looked)
  next
    case LookupTimeout
    with assms g have "state_of out = asked Lookup s1"
      by (auto simp: go_to_next_page_def Let_def state_of_def)
    with g show ?thesis by (rule looked)
  next
    case (Clickable b)
    show ?thesis
    proof (cases "is_button_enabled b")
      case False
      with Clickable assms g have "state_of out = asked Lookup s1"
        by (auto simp: go_to_next_page_def Let_def state_of_def)
      with g show ?thesis by (rule looked)
    next
      case True
      show ?thesis
      proof (cases "click_result e (tick (asked Lookup s1))")
        case Clicked
        with True Clickable assms g obtain out' where
          o: "ensure_table_loaded h e (asked Click (asked Lookup s1)) = Some out'"
          by (cases "ensure_table_loaded h e (asked Click (asked Lookup s1))")
             (simp_all add: go_to_next_page_def Let_def)
        with Clicked True Clickable assms g have "state_of out = state_of out'"
          by (cases out') (auto simp: go_to_next_page_def Let_def state_of_def split: if_splits)
        with g o show ?thesis by (rule waited)
      next
        case ClickStale
        with True Clickable assms g have "state_of out = asked Click (asked Lookup s1)"
          by (auto simp: go_to_next_page_def Let_def state_of_def)
        with g show ?thesis by (rule clicked)
      next
        case ClickFailed
        with True Clickable assms g have "state_of out = asked Click (asked Lookup s1)"
          by (auto simp: go_to_next_page_def Let_def state_of_def)
        with g show ?thesis by (rule clicked)
      qed
    qed
  qed
qed

lemma go_to_next_page_keeps:
  assumes "go_to_next_page h e s = Some out" and hq: "\<forall>t. q (snd (h t)) = q t"
    and aq: "\<forall>t. q (asked TableWait t) = q t" "\<forall>t. q (asked Lookup t) = q t"
      "\<forall>t. q (asked Click t) = q t"
  shows "q (state_of out) = q s"
  using assms(1)
proof (cases rule: go_to_next_page_cases)
  case (looked s1)
  with await_clear_keeps[OF looked(1) hq] aq show ?thesis by simp
next
  case (clicked s1)
  with await_clear_keeps[OF clicked(1) hq] aq show ?thesis by simp
next
  case (waited s1 out')
  from ensure_table_loaded_keeps[OF waited(2) hq aq(1)] waited(3)
    await_clear_keeps[OF waited(1) hq] aq
  show ?thesis by simp
qed

lemma advances_asked:
  "advances (log (asked ev t)) = (if ev = Lookup then Suc (advances (log t)) else advances (log t))"
  by (simp add: advances_def asked_def)


lemma skip_loop_step:
  assumes "skip_loop h e target a m s = Some out" and "a < m"
  obtains (aligned) s1 where "await_clear h s = Some s1"
      "out = Returned True (asked PageRead s1)"
  | (stopped) s1 out' where "await_clear h s = Some s1"
      "go_to_next_page h e (asked PageRead s1) = Some out'" "state_of out = state_of out'"
      "\<forall>t. out \<noteq> Returned True t"
  | (moved) s1 s3 where "await_clear h s = Some s1"
      "go_to_next_page h e (asked PageRead s1) = Some (Returned True s3)"
      "skip_loop h e target (a + 1) m s3 = Some out"
proof -
  from assms have u: "(case await_clear h s of
           None \<Rightarrow> None
         | Some s1 \<Rightarrow>
             (case get_current_page_number e s1 of
                (page_from_ui, s2) \<Rightarrow>
                  if (case page_from_ui of None \<Rightarrow> False | Some n \<Rightarrow> n \<ge> target)
                  then Some (Returned True s2)
                  else
                    (case go_to_next_page h e s2 of
                       None \<Rightarrow> None
                     | Some (Raised x s3) \<Rightarrow> Some (Raised x s3)
                     | Some (Returned moved s3) \<Rightarrow>
                         if \<not> moved then Some (Returned False s3)
                         else skip_loop h e target (a + 1) m s3))) = Some out"
    by (subst (asm) skip_loop.simps) simp
  then obtain s1 where g: "await_clear h s = Some s1"
    by (cases "await_clear h s") simp_all
  have p: "get_current_page_number e s1 = (fst (get_current_page_number e s1), asked PageRead s1)"
    by (simp add: get_current_page_number_def)
  show thesis
  proof (cases "case fst (get_current_page_number e s1) of None \<Rightarrow> False | Some n \<Rightarrow> n \<ge> target")
    case True
    with u g p have "out = Returned True (asked PageRead s1)"
      by (simp add: get_current_page_number_def)
    with g show ?thesis by (rule aligned)
  next
    case False
    with u g have v: "(case go_to_next_page h e (asked PageRead s1) of
                       None \<Rightarrow> None
                     | Some (Raised x s3) \<Rightarrow> Some (Raised x s3)
                     | Some (Returned moved s3) \<Rightarrow>
                         if \<not> moved then Some (Returned False s3)
                         else skip_loop h e target (a + 1) m s3) = Some out"
      by (simp add: get_current_page_number_def)
    then obtain out' where o: "go_to_next_page h e (asked PageRead s1) = Some out'"
      by (cases "go_to_next_page h e (asked PageRead s1)") simp_all
    show ?thesis
    proof (cases out')
      case (Raised x s3)
      with v o have "out = Raised x s3" by simp
      with Raised have "state_of out = state_of out'" "\<forall>t. out \<noteq> Returned True t" by simp_all
      with g o show ?thesis by (rule stopped)
    next
      case (Returned mv s3)
      show ?thesis
      proof (cases mv)
        case False
        with Returned v o have "out = Returned False s3" by simp
        with Returned have "state_of out = state_of out'" "\<forall>t. out \<noteq> Returned True t"
          by (simp_all add: state_of_def)
        with g o show ?thesis by (rule stopped)
      next
        case True
        with Returned v o have r: "skip_loop h e target (a + 1) m s3 = Some out" by simp
        from True Returned o have "go_to_next_page h e (asked PageRead s1) = Some (Returned True s3)"
          by simp
        with g show ?thesis using r by (rule moved)
      qed
    qed
  qed
qed

lemma skip_loop_done:
  "\<not> a < m \<Longrightarrow> skip_loop h e target a m s = Some (Returned False s)"
  by (subst skip_loop.simps) simp

lemma skip_loop_keeps:
  assumes hq: "\<forall>t. q (snd (h t)) = q t"
    and aq: "\<forall>t. q (asked TableWait t) = q t" "\<forall>t. q (asked Lookup t) = q t"
      "\<forall>t. q (asked Click t) = q t" "\<forall>t. q (asked PageRead t) = q t"
  shows "skip_loop h e target a m s = Some out \<Longrightarrow> q (state_of out) = q s"
proof (induction "nat (m - a)" arbitrary: a s rule: less_induct)
  case less
  show ?case
  proof (cases "a < m")
    case False
    with less.prems skip_loop_done[OF False, of h e target s] have "out = Returned False s"
      by simp
    then show ?thesis by (simp add: state_of_def)
  next
    case True
    from less.prems True show ?thesis
    proof (cases rule: skip_loop_step)
      case (aligned s1)
      with await_clear_keeps[OF aligned(1) hq] aq show ?thesis by (simp add: state_of_def)
    next
      case (stopped s1 out')
      from go_to_next_page_keeps[OF stopped(2) hq aq(1,2,3)] stopped(3)
        await_clear_keeps[OF stopped(1) hq] aq
      show ?thesis by simp
    next
      case (moved s1 s3)
      from True have "nat (m - (a + 1)) < nat (m - a)" by simp
      from less.hyps[OF this moved(3)]
        go_to_next_page_keeps[OF moved(2) hq aq(1,2,3)]
        await_clear_keeps[OF moved(1) hq] aq
      show ?thesis by (simp add: state_of_def)
    qed
  qed
qed


lemma handle_pages_frame:
  "advances (log (snd (handle_bot_challenge c e t))) = advances (log t)"
  "scans (log (snd (handle_bot_challenge c e t))) = scans (log t)"
  "collected_urls (snd (handle_bot_challenge c e t)) = collected_urls t"
  "pages_processed (snd (handle_bot_challenge c e t)) = pages_processed t"
  by (simp_all add: handle_bot_challenge_def notify_bot_block_def asked_def did_def Let_def
      advances_def scans_def)

lemma handle_days_frame:
  "advances (log (snd (handle_bot_challenge_days c e t))) = advances (log t)"
  "scans (log (snd (handle_bot_challenge_days c e t))) = scans (log t)"
  "collected_urls (snd (handle_bot_challenge_days c e t)) = collected_urls t"
  by (simp_all add: handle_bot_challenge_days_def notify_bot_block_def asked_def did_def Let_def
      advances_def scans_def)


lemma skip_processed_pages_cases:
  assumes "0 < pages_processed s" and "skip_processed_pages h e s = Some out"
  obtains (aligned) cur where "live_page e s = Some cur" "pages_processed s + 1 \<le> cur"
      "out = Returned True (asked PageRead s)"
  | (behind) "\<forall>cur. live_page e s = Some cur \<longrightarrow> cur < pages_processed s + 1"
      "skip_loop h e (pages_processed s + 1) 0 (skip_budget (pages_behind e s)) (asked PageRead s) = Some out"
proof (cases "live_page e s")
  case None
  with assms have "skip_loop h e (pages_processed s + 1) 0 (skip_budget (pages_behind e s)) (asked PageRead s) = Some out"
    by (simp add: skip_processed_pages_def live_page_def pages_behind_def get_current_page_number_def
        Let_def)
  with None show ?thesis by (intro behind) simp_all
next
  case (Some cur)
  show ?thesis
  proof (cases "pages_processed s + 1 \<le> cur")
    case True
    with Some assms have "out = Returned True (asked PageRead s)"
      by (simp add: skip_processed_pages_def live_page_def get_current_page_number_def Let_def)
    with Some True show ?thesis by (intro aligned)
  next
    case False
    with Some assms have "skip_loop h e (pages_processed s + 1) 0 (skip_budget (pages_behind e s)) (asked PageRead s) = Some out"
      by (simp add: skip_processed_pages_def live_page_def pages_behind_def get_current_page_number_def
        Let_def max_def)
    with Some False show ?thesis by (intro behind) simp_all
  qed
qed


lemma await_clear_now: "\<not> fst (h s) \<Longrightarrow> await_clear h s = Some (snd (h s))"
  by (subst await_clear_unfold) simp

lemma ensure_table_loaded_now:
  "\<not> fst (h (asked TableWait s)) \<Longrightarrow>
     ensure_table_loaded h e s =
       (if table_present e (tick s) then Some (Returned () (snd (h (asked TableWait s))))
        else Some (Raised TimeoutException (snd (h (asked TableWait s)))))"
  by (subst ensure_table_loaded.simps) (simp add: case_prod_beta)

lemma handle_pages_calm:
  "truthy (bot_check_selector c) \<Longrightarrow> \<not> challenge e (tick t) \<Longrightarrow>
     handle_bot_challenge c e t = (False, calm t)"
  by (simp add: handle_bot_challenge_def calm_def Let_def)

lemma handle_days_calm:
  "\<not> challenge e (tick t) \<Longrightarrow> handle_bot_challenge_days c e t = (False, calm t)"
  by (simp add: handle_bot_challenge_days_def calm_def Let_def)

lemma next_enabled_ok: "is_button_enabled next_enabled"
  by (simp add: is_button_enabled_def next_enabled_def truthy_def lower_def lower_char_def sublist_code)

lemma sel0: "truthy (bot_check_selector cfg0)"
  by (simp add: cfg0_def truthy_def)

lemma gate_quiet:
  "\<forall>t. \<not> challenge e t \<Longrightarrow> await_clear (handle_bot_challenge cfg0 e) t = Some (calm t)"
  by (simp add: await_clear_now handle_pages_calm sel0)





lemma advances_hop: "advances (log (hop t)) = Suc (advances (log t))"
  by (simp add: hop_def calm_def advances_asked asked_def advances_def)


lemma go_next_stale:
  assumes "await_clear h s = Some s1" "next_button e (tick s1) = Clickable b" "is_button_enabled b"
    "click_result e (Suc (tick s1)) = ClickStale"
  shows "go_to_next_page h e s = Some (Returned False (asked Click (asked Lookup s1)))"
  using assms by (simp add: go_to_next_page_def Let_def asked_def)

lemma page_loop_last:
  assumes "await_clear (handle_bot_challenge c e) p = Some p1"
    "persist_progress c e ((collect_current_page_urls e p1)\<lparr>pages_processed :=
        pages_processed (collect_current_page_urls e p1) + 1\<rparr>) = Returned () p4"
    "go_to_next_page (handle_bot_challenge c e) e (snd (get_current_page_number e p4)) =
        Some (Returned False p5)"
  shows "page_loop c e p = Some (Returned () p5)"
  using assms by (subst page_loop.simps) (simp add: Let_def)

lemma day_pages_last:
  assumes "await_clear (handle_bot_challenge_days c e) d = Some d1"
    "persist_progress_days c e (collect_current_page_urls_days e d1) = Returned () d2"
    "go_to_next_page (handle_bot_challenge_days c e) e d2 = Some (Returned False d3)"
  shows "day_pages c e d = Some (Returned () d3)"
  using assms by (subst day_pages.simps) simp

lemma skip_loop_last:
  assumes "a < m" "await_clear h s = Some s1" "\<forall>n. live_page e s1 = Some n \<longrightarrow> n < target"
    "go_to_next_page h e (asked PageRead s1) = Some (Returned False s3)"
  shows "skip_loop h e target a m s = Some (Returned False s3)"
proof -
  from assms(3) have "\<not> (case fst (get_current_page_number e s1) of None \<Rightarrow> False | Some n \<Rightarrow> target \<le> n)"
    by (cases "fst (get_current_page_number e s1)") (simp_all add: live_page_def)
  with assms(1,2,4) show ?thesis
    by (subst skip_loop.simps) (simp add: get_current_page_number_def)
qed

text \<open>
  Claim C8, as amended. When the click on the next-page button raises a stale-element
  error, \<^verbatim>\<open>_go_to_next_page\<close> returns \<^verbatim>\<open>False\<close> after that one lookup and that one
  click; it does not look the control up again. Its callers read \<^verbatim>\<open>False\<close> as "no more
  pages": the page loop of \<^verbatim>\<open>run\<close> ends the current page sequence (of the run, or of
  the day), and the resume loop declares failure.
\<close>

theorem stale_click_ends_pagination:
  "(await_clear h s = Some s1 \<and> next_button e (tick s1) = Clickable b \<and> is_button_enabled b \<and>
      click_result e (Suc (tick s1)) = ClickStale \<longrightarrow>
      go_to_next_page h e s = Some (Returned False (asked Click (asked Lookup s1)))) \<and>
   (await_clear (handle_bot_challenge c e) p = Some p1 \<and>
      persist_progress c e ((collect_current_page_urls e p1)\<lparr>pages_processed :=
        pages_processed (collect_current_page_urls e p1) + 1\<rparr>) = Returned () p4 \<and>
      go_to_next_page (handle_bot_challenge c e) e (snd (get_current_page_number e p4)) =
        Some (Returned False p5) \<longrightarrow>
      page_loop c e p = Some (Returned () p5)) \<and>
   (await_clear (handle_bot_challenge_days c e) d = Some d1 \<and>
      persist_progress_days c e (collect_current_page_urls_days e d1) = Returned () d2 \<and>
      go_to_next_page (handle_bot_challenge_days c e) e d2 = Some (Returned False d3) \<longrightarrow>
      day_pages c e d = Some (Returned () d3)) \<and>
   (a < m \<and> await_clear h s = Some s1 \<and> (\<forall>n. live_page e s1 = Some n \<longrightarrow> n < target) \<and>
      go_to_next_page h e (asked PageRead s1) = Some (Returned False s3) \<longrightarrow>
      skip_loop h e target a m s = Some (Returned False s3))"
  using go_next_stale[of h s s1 e b] page_loop_last[of c e p p1 p4 p5]
    day_pages_last[of c e d d1 d2 d3] skip_loop_last[of a m h s s1 e target s3]
  by (intro conjI impI) (elim conjE, simp)+

lemma go_next_stale_next:
  "go_to_next_page (handle_bot_challenge cfg0 stale_next) stale_next t =
     Some (Returned False (asked Click (asked Lookup (calm t))))"
proof -
  have q: "\<forall>t. \<not> challenge stale_next t" by (simp add: stale_next_def quiet_def)
  show ?thesis
    by (rule go_next_stale[OF gate_quiet[OF q], where b=next_enabled])
       (simp_all add: stale_next_def quiet_def next_enabled_ok)
qed

theorem stale_click_ends_pagination_witness:
  "await_clear (handle_bot_challenge cfg0 stale_next) fresh_pages = Some (calm fresh_pages) \<and>
   is_button_enabled next_enabled \<and>
   go_to_next_page (handle_bot_challenge cfg0 stale_next) stale_next fresh_pages =
     Some (Returned False (asked Click (asked Lookup (calm fresh_pages))))"
proof -
  have q: "\<forall>t. \<not> challenge stale_next t" by (simp add: stale_next_def quiet_def)
  have n: "next_button stale_next (tick (calm fresh_pages)) = Clickable next_enabled"
    "click_result stale_next (Suc (tick (calm fresh_pages))) = ClickStale"
    by (simp_all add: stale_next_def quiet_def)
  from stale_click_ends_pagination[where h="handle_bot_challenge cfg0 stale_next" and s=fresh_pages
      and ?s1.0="calm fresh_pages" and e=stale_next and b=next_enabled, THEN conjunct1]
    gate_quiet[OF q, of fresh_pages] n next_enabled_ok
  show ?thesis by simp
qed

lemma run_pages_stale:
  "run_pages cfg0 stale_next fresh_pages =
     Some (Returned []
       \<lparr>tick = 13,
        log = [Navigate, Authenticate, TableWait, Probe False, Probe False, Scan, PageRead,
               Probe False, Lookup, Click],
        collected_urls = {}, bot_notified = False, state_file = NoFile, sheet = [],
        pages_processed = 1, last_bot_prompt = 0\<rparr>)"
proof -
  have q: "\<forall>t. \<not> challenge stale_next t" by (simp add: stale_next_def quiet_def)
  have e: "ensure_table_loaded (handle_bot_challenge cfg0 stale_next) stale_next u =
     Some (Returned () (calm (asked TableWait u)))" for u
    by (subst ensure_table_loaded_now) (simp_all add: handle_pages_calm sel0 q stale_next_def quiet_def)
  have sk: "skip_processed_pages (handle_bot_challenge cfg0 stale_next) stale_next u = Some (Returned True u)"
    if "pages_processed u = 0" for u
    using that by (simp add: skip_processed_pages_def)
  let ?s1 = "calm (asked TableWait (did Authenticate (did Navigate fresh_pages)))"
  let ?p1 = "calm ?s1"
  let ?s3 = "(collect_current_page_urls stale_next ?p1)\<lparr>pages_processed :=
        pages_processed (collect_current_page_urls stale_next ?p1) + 1\<rparr>"
  let ?s4 = "save_state_pages cfg0 stale_next
      ((?s3)\<lparr>tick := Suc (tick ?s3), sheet := sorted_list_of_set (collected_urls ?s3)\<rparr>)"
  have pp: "persist_progress cfg0 stale_next ?s3 = Returned () ?s4"
    by (simp add: persist_progress_def save_results_def stale_next_def quiet_def Let_def)
  let ?s5 = "asked Click (asked Lookup (calm (snd (get_current_page_number stale_next ?s4))))"
  have pl: "page_loop cfg0 stale_next ?s1 = Some (Returned () ?s5)"
    by (rule page_loop_last[OF gate_quiet[OF q] pp go_next_stale_next])
  have s1: "pages_processed ?s1 = 0"
    by (simp add: calm_def asked_def did_def fresh_pages_def)
  have v5: "?s5 = \<lparr>tick = 11,
        log = [Navigate, Authenticate, TableWait, Probe False, Probe False, Scan, PageRead,
               Probe False, Lookup, Click],
        collected_urls = {}, bot_notified = False,
        state_file = Doc (JObj [(''collected_urls'', JList []), (''pages_processed'', JInt 1),
                                (''timestamp'', JFloat 150)]),
        sheet = [], pages_processed = 1, last_bot_prompt = 0\<rparr>"
    by (simp add: calm_def asked_def did_def fresh_pages_def collect_current_page_urls_def
        save_state_pages_def get_current_page_number_def stale_next_def quiet_def cfg0_def
        truthy_def Let_def state_doc_pages_def)
  have fin: "finish cfg0 stale_next ?s5 = Returned []
       \<lparr>tick = 13,
        log = [Navigate, Authenticate, TableWait, Probe False, Probe False, Scan, PageRead,
               Probe False, Lookup, Click],
        collected_urls = {}, bot_notified = False, state_file = NoFile, sheet = [],
        pages_processed = 1, last_bot_prompt = 0\<rparr>"
    unfolding v5
    by (simp add: finish_def save_results_def clear_state_def stale_next_def quiet_def cfg0_def
         truthy_def Let_def)
  show ?thesis
    unfolding run_pages_def
    by (simp only: e sk[OF s1] pl fin option.case outcome.case simp_thms if_True if_False)
qed

text \<open>
  Claim C8 as stated fails. The next-page button is there and enabled, and the click on it
  raises a stale-element error: \<^verbatim>\<open>_go_to_next_page\<close> returns \<^verbatim>\<open>False\<close> after a single
  lookup, and the run ends after its first page, removing its state file.
\<close>

theorem stale_click_stops_the_run:
  "go_to_next_page (handle_bot_challenge cfg0 stale_next) stale_next fresh_pages =
     Some (Returned False (asked Click (asked Lookup (calm fresh_pages)))) \<and>
   advances (log (asked Click (asked Lookup (calm fresh_pages)))) = 1 \<and>
   run_pages cfg0 stale_next fresh_pages =
     Some (Returned []
       \<lparr>tick = 13,
        log = [Navigate, Authenticate, TableWait, Probe False, Probe False, Scan, PageRead,
               Probe False, Lookup, Click],
        collected_urls = {}, bot_notified = False, state_file = NoFile, sheet = [],
        pages_processed = 1, last_bot_prompt = 0\<rparr>)"
  by (simp add: go_next_stale_next run_pages_stale)
     (simp add: advances_def asked_def calm_def fresh_pages_def)

section \<open>Properties of the collected set\<close>

lemma add_links_eq:
  "add_links ls C = C \<union> set (concat (map (\<lambda>l. case l of None \<Rightarrow> [] | Some href \<Rightarrow> if wanted href then [href] else []) ls))"
  unfolding add_links_def
  by (induction ls arbitrary: C) (auto split: option.splits)

lemma fold_add_links:
  "fold (\<lambda>r. add_links (extract_links r)) rs C = C \<union> page_links rs"
  by (induction rs arbitrary: C) (auto simp: page_links_def add_links_eq)

lemma collect_pages_eq:
  "collected_urls (collect_current_page_urls e s) = collected_urls s \<union> page_links (rows e (tick s))"
  by (simp add: collect_current_page_urls_def Let_def fold_add_links asked_def)

lemma fold_scan_row:
  "collected_urls (fold scan_row rs s) = collected_urls s \<union> page_links rs"
proof (induction rs arbitrary: s)
  case Nil
  show ?case by (simp add: page_links_def)
next
  case (Cons r rs)
  have "collected_urls (scan_row r s) = collected_urls s \<union> page_links [r]"
    by (simp add: scan_row_def Let_def add_links_eq page_links_def split: option.splits)
  with Cons[of "scan_row r s"] show ?case by (auto simp: page_links_def)
qed

lemma collect_days_eq:
  "collected_urls (collect_current_page_urls_days e s) =
     collected_urls s \<union> page_links (rows e (tick s))"
  by (simp add: collect_current_page_urls_days_def fold_scan_row asked_def)

lemma load_pages_grows:
  "load_state_pages c s = Inr s' \<Longrightarrow> collected_urls s \<subseteq> collected_urls s'"
  by (auto simp: load_state_pages_def load_urls_def Let_def
      split: if_splits stored.splits json.splits)

lemma load_days_grows:
  "load_state_days strptime c s = Inr s' \<Longrightarrow> collected_urls s \<subseteq> collected_urls s'"
  by (auto simp: load_state_days_def load_urls_def Let_def
      split: if_splits stored.splits json.splits option.splits)

lemma persist_pages_keeps:
  "collected_urls (state_of (persist_progress c e s)) = collected_urls s"
  "pages_processed (state_of (persist_progress c e s)) = pages_processed s"
  by (simp_all add: persist_progress_def save_results_def save_state_pages_def state_of_def Let_def)

lemma persist_days_keeps:
  "collected_urls (state_of (persist_progress_days c e s)) = collected_urls s"
  by (simp add: persist_progress_days_def save_results_def save_state_days_def state_of_def Let_def)

lemma finish_keeps:
  "collected_urls (state_of (finish c e s)) = collected_urls s"
  by (simp add: finish_def save_results_def clear_state_def state_of_def Let_def)

lemma asked_urls: "collected_urls (asked ev t) = collected_urls t"
  by (simp add: asked_def)

lemma handle_pages_urls: "\<forall>t. collected_urls (snd (handle_bot_challenge c e t)) = collected_urls t"
  by (simp add: handle_pages_frame)

lemma handle_days_urls: "\<forall>t. collected_urls (snd (handle_bot_challenge_days c e t)) = collected_urls t"
  by (simp add: handle_days_frame)

lemma go_next_pages_urls:
  "go_to_next_page (handle_bot_challenge c e) e s = Some out \<Longrightarrow>
     collected_urls (state_of out) = collected_urls s"
  by (rule go_to_next_page_keeps[where q=collected_urls, OF _ handle_pages_urls])
     (simp_all add: asked_urls)

lemma go_next_days_urls:
  "go_to_next_page (handle_bot_challenge_days c e) e s = Some out \<Longrightarrow>
     collected_urls (state_of out) = collected_urls s"
  by (rule go_to_next_page_keeps[where q=collected_urls, OF _ handle_days_urls])
     (simp_all add: asked_urls)

lemma page_loop_grows:
  "page_loop c e s = Some out \<Longrightarrow> collected_urls s \<subseteq> collected_urls (state_of out)"
proof (induction rule: page_loop.raw_induct[rotated 1, consumes 1])
  case (1 rec c e s out)
  let ?h = "handle_bot_challenge c e"
  from 1(2) obtain s1 where g: "await_clear ?h s = Some s1"
    by (cases "await_clear ?h s") simp_all
  from await_clear_keeps[OF g handle_pages_urls]
  have k1: "collected_urls s1 = collected_urls s" .
  let ?s3 = "(collect_current_page_urls e s1)\<lparr>pages_processed :=
        pages_processed (collect_current_page_urls e s1) + 1\<rparr>"
  have k3: "collected_urls s \<subseteq> collected_urls ?s3" using k1 by (simp add: collect_pages_eq)
  have k4: "collected_urls (state_of (persist_progress c e ?s3)) = collected_urls ?s3"
    by (rule persist_pages_keeps)
  show ?case
  proof (cases "persist_progress c e ?s3")
    case (Raised x s4)
    with 1(2) g have "out = Raised x s4" by (simp add: Let_def)
    with k3 k4 Raised show ?thesis by (simp add: state_of_def)
  next
    case (Returned u s4)
    let ?s4' = "snd (get_current_page_number e s4)"
    have k5: "collected_urls ?s4' = collected_urls ?s3"
      using k4 Returned by (simp add: state_of_def get_current_page_number_def asked_urls)
    from 1(2) g Returned obtain out' where o: "go_to_next_page ?h e ?s4' = Some out'"
      by (cases "go_to_next_page ?h e ?s4'") (simp_all add: Let_def)
    from go_next_pages_urls[OF o] k5 k3
    have k6: "collected_urls s \<subseteq> collected_urls (state_of out')" by simp
    show ?thesis
    proof (cases out')
      case (Raised x s5)
      with 1(2) g Returned o have "out = Raised x s5" by (simp add: Let_def)
      with k6 Raised show ?thesis by (simp add: state_of_def)
    next
      case R: (Returned mv s5)
      show ?thesis
      proof (cases mv)
        case True
        with 1(2) g Returned o R have "rec c e s5 = Some out" by (simp add: Let_def)
        from 1(1)[OF this] k6 R show ?thesis by (auto simp: state_of_def)
      next
        case False
        with 1(2) g Returned o R have "out = Returned () s5" by (simp add: Let_def)
        with k6 R show ?thesis by (simp add: state_of_def)
      qed
    qed
  qed
qed

lemma ensure_pages_urls:
  "ensure_table_loaded (handle_bot_challenge c e) e s = Some out \<Longrightarrow>
     collected_urls (state_of out) = collected_urls s"
  by (rule ensure_table_loaded_keeps[where q=collected_urls, OF _ handle_pages_urls])
     (simp_all add: asked_urls)

lemma ensure_days_urls:
  "ensure_table_loaded (handle_bot_challenge_days c e) e s = Some out \<Longrightarrow>
     collected_urls (state_of out) = collected_urls s"
  by (rule ensure_table_loaded_keeps[where q=collected_urls, OF _ handle_days_urls])
     (simp_all add: asked_urls)

lemma skip_pages_urls:
  assumes "skip_processed_pages (handle_bot_challenge c e) e s = Some out"
  shows "collected_urls (state_of out) = collected_urls s"
proof (cases "0 < pages_processed s")
  case True
  from True assms show ?thesis
  proof (cases rule: skip_processed_pages_cases)
    case (aligned cur)
    then show ?thesis by (simp add: state_of_def asked_urls)
  next
    case behind
    have "collected_urls (state_of out) = collected_urls (asked PageRead s)"
      by (rule skip_loop_keeps[where q=collected_urls, OF handle_pages_urls _ _ _ _ behind(2)])
         (simp_all add: asked_urls)
    then show ?thesis by (simp add: asked_urls)
  qed
next
  case False
  with assms have "out = Returned True s" by (simp add: skip_processed_pages_def)
  then show ?thesis by (simp add: state_of_def)
qed

lemma run_pages_grows:
  assumes "run_pages c e s = Some out"
  shows "collected_urls s \<subseteq> collected_urls (state_of out)"
proof -
  let ?h = "handle_bot_challenge c e"
  let ?s0 = "did Authenticate (did Navigate s)"
  have k0: "collected_urls ?s0 = collected_urls s" by (simp add: did_def)
  from assms obtain o1 where e1: "ensure_table_loaded ?h e ?s0 = Some o1"
    by (cases "ensure_table_loaded ?h e ?s0") (simp_all add: run_pages_def)
  from ensure_pages_urls[OF e1] k0 have k1: "collected_urls (state_of o1) = collected_urls s" by simp
  show ?thesis
  proof (cases o1)
    case (Raised x s1)
    with assms e1 have "out = Raised x s1" by (simp add: run_pages_def)
    with k1 Raised show ?thesis by (simp add: state_of_def)
  next
    case (Returned u s1)
    with assms e1 obtain o2 where e2: "skip_processed_pages ?h e s1 = Some o2"
      by (cases "skip_processed_pages ?h e s1") (simp_all add: run_pages_def)
    from skip_pages_urls[OF e2] k1 Returned
    have k2: "collected_urls (state_of o2) = collected_urls s" by (simp add: state_of_def)
    show ?thesis
    proof (cases o2)
      case (Raised x s2)
      with assms e1 Returned e2 have "out = Raised x s2" by (simp add: run_pages_def)
      with k2 Raised show ?thesis by (simp add: state_of_def)
    next
      case R2: (Returned aligned s2)
      show ?thesis
      proof (cases aligned)
        case False
        with assms e1 Returned e2 R2 have "out = finish c e s2" by (simp add: run_pages_def)
        with finish_keeps[of c e s2] k2 R2 show ?thesis by (simp add: state_of_def)
      next
        case True
        with assms e1 Returned e2 R2 obtain o3 where e3: "page_loop c e s2 = Some o3"
          by (cases "page_loop c e s2") (simp_all add: run_pages_def)
        from page_loop_grows[OF e3] k2 R2
        have k3: "collected_urls s \<subseteq> collected_urls (state_of o3)" by (simp add: state_of_def)
        show ?thesis
        proof (cases o3)
          case (Raised x s3)
          with assms e1 Returned e2 R2 True e3 have "out = Raised x s3" by (simp add: run_pages_def)
          with k3 Raised show ?thesis by (simp add: state_of_def)
        next
          case R3: (Returned u3 s3)
          with assms e1 Returned e2 R2 True e3 have "out = finish c e s3" by (simp add: run_pages_def)
          with finish_keeps[of c e s3] k3 R3 show ?thesis by (simp add: state_of_def)
        qed
      qed
    qed
  qed
qed

lemma filter_day_urls:
  assumes "apply_date_filter_for_day c e s = Some out"
  shows "collected_urls (state_of out) = collected_urls s"
proof (cases "filter_ok e (tick s)")
  case False
  with assms have "out = Returned False (asked FilterDay s)"
    by (simp add: apply_date_filter_for_day_def)
  then show ?thesis by (simp add: state_of_def asked_urls)
next
  case True
  let ?h = "handle_bot_challenge_days c e"
  from True assms obtain o1 where e1: "ensure_table_loaded ?h e (asked FilterDay s) = Some o1"
    by (cases "ensure_table_loaded ?h e (asked FilterDay s)")
       (simp_all add: apply_date_filter_for_day_def)
  from ensure_days_urls[OF e1] have k: "collected_urls (state_of o1) = collected_urls s"
    by (simp add: asked_urls)
  from True assms e1 have "state_of out = state_of o1"
    by (cases o1) (auto simp: apply_date_filter_for_day_def state_of_def split: if_splits)
  with k show ?thesis by simp
qed

lemma day_pages_grows:
  "day_pages c e s = Some out \<Longrightarrow> collected_urls s \<subseteq> collected_urls (state_of out)"
proof (induction rule: day_pages.raw_induct[rotated 1, consumes 1])
  case (1 rec c e s out)
  let ?h = "handle_bot_challenge_days c e"
  from 1(2) obtain s1 where g: "await_clear ?h s = Some s1"
    by (cases "await_clear ?h s") simp_all
  from await_clear_keeps[OF g handle_days_urls]
  have k1: "collected_urls s1 = collected_urls s" .
  let ?s2 = "collect_current_page_urls_days e s1"
  have k3: "collected_urls s \<subseteq> collected_urls ?s2" using k1 by (simp add: collect_days_eq)
  have k4: "collected_urls (state_of (persist_progress_days c e ?s2)) = collected_urls ?s2"
    by (rule persist_days_keeps)
  show ?case
  proof (cases "persist_progress_days c e ?s2")
    case (Raised x s4)
    with 1(2) g have "out = Raised x s4" by simp
    with k3 k4 Raised show ?thesis by (simp add: state_of_def)
  next
    case (Returned u s4)
    have k5: "collected_urls s4 = collected_urls ?s2"
      using k4 Returned by (simp add: state_of_def)
    from 1(2) g Returned obtain out' where o: "go_to_next_page ?h e s4 = Some out'"
      by (cases "go_to_next_page ?h e s4") simp_all
    from go_next_days_urls[OF o] k5 k3
    have k6: "collected_urls s \<subseteq> collected_urls (state_of out')" by simp
    show ?thesis
    proof (cases out')
      case (Raised x s5)
      with 1(2) g Returned o have "out = Raised x s5" by simp
      with k6 Raised show ?thesis by (simp add: state_of_def)
    next
      case R: (Returned mv s5)
      show ?thesis
      proof (cases mv)
        case True
        with 1(2) g Returned o R have "rec c e s5 = Some out" by simp
        from 1(1)[OF this] k6 R show ?thesis by (auto simp: state_of_def)
      next
        case False
        with 1(2) g Returned o R have "out = Returned () s5" by simp
        with k6 R show ?thesis by (simp add: state_of_def)
      qed
    qed
  qed
qed

lemma day_loop_grows:
  "day_loop c e d s = Some out \<Longrightarrow> collected_urls s \<subseteq> collected_urls (state_of out)"
proof (induction rule: day_loop.raw_induct[rotated 1, consumes 1])
  case (1 rec c e d s out)
  let ?s0 = "s\<lparr>current_scraping_date := Some d\<rparr>"
  from 1(2) obtain o1 where e1: "apply_date_filter_for_day c e ?s0 = Some o1"
    by (cases "apply_date_filter_for_day c e ?s0") simp_all
  from filter_day_urls[OF e1] have k1: "collected_urls (state_of o1) = collected_urls s" by simp
  show ?case
  proof (cases o1)
    case (Raised x s1)
    with 1(2) e1 have "out = Raised x s1" by simp
    with k1 Raised show ?thesis by (simp add: state_of_def)
  next
    case (Returned applied s1)
    show ?thesis
    proof (cases applied)
      case False
      with 1(2) e1 Returned have "out = Returned () s1" by simp
      with k1 Returned show ?thesis by (simp add: state_of_def)
    next
      case True
      with 1(2) e1 Returned obtain o2 where e2: "day_pages c e s1 = Some o2"
        by (cases "day_pages c e s1") simp_all
      from day_pages_grows[OF e2] k1 Returned
      have k2: "collected_urls s \<subseteq> collected_urls (state_of o2)" by (simp add: state_of_def)
      show ?thesis
      proof (cases o2)
        case (Raised x s2)
        with 1(2) e1 Returned True e2 have "out = Raised x s2" by simp
        with k2 Raised show ?thesis by (simp add: state_of_def)
      next
        case R2: (Returned u s2)
        show ?thesis
        proof (cases "prev_day d")
          case None
          with 1(2) e1 Returned True e2 R2 have "out = Raised OverflowError s2" by simp
          with k2 R2 show ?thesis by (simp add: state_of_def)
        next
          case (Some d')
          with 1(2) e1 Returned True e2 R2 have "rec c e d' s2 = Some out" by simp
          from 1(1)[OF this] k2 R2 show ?thesis by (auto simp: state_of_def)
        qed
      qed
    qed
  qed
qed

lemma run_days_grows:
  assumes "run_days c e s = Some out"
  shows "collected_urls s \<subseteq> collected_urls (state_of out)"
proof -
  let ?h = "handle_bot_challenge_days c e"
  let ?s0 = "did Authenticate (did Navigate s)"
  have k0: "collected_urls ?s0 = collected_urls s" by (simp add: did_def)
  from assms obtain o1 where e1: "ensure_table_loaded ?h e ?s0 = Some o1"
    by (cases "ensure_table_loaded ?h e ?s0") (simp_all add: run_days_def)
  from ensure_days_urls[OF e1] k0 have k1: "collected_urls (state_of o1) = collected_urls s" by simp
  show ?thesis
  proof (cases o1)
    case (Raised x s1)
    with assms e1 have "out = Raised x s1" by (simp add: run_days_def)
    with k1 Raised show ?thesis by (simp add: state_of_def)
  next
    case (Returned u s1)
    let ?d = "case current_scraping_date s1 of Some d \<Rightarrow> d | None \<Rightarrow> midnight (today e)"
    from assms e1 Returned obtain o2 where e2: "day_loop c e ?d s1 = Some o2"
      by (cases "day_loop c e ?d s1") (simp_all add: run_days_def)
    from day_loop_grows[OF e2] k1 Returned
    have k2: "collected_urls s \<subseteq> collected_urls (state_of o2)" by (simp add: state_of_def)
    show ?thesis
    proof (cases o2)
      case (Raised x s2)
      with assms e1 Returned e2 have "out = Raised x s2" by (simp add: run_days_def)
      with k2 Raised show ?thesis by (simp add: state_of_def)
    next
      case R2: (Returned u2 s2)
      with assms e1 Returned e2 have "out = finish c e s2" by (simp add: run_days_def)
      with finish_keeps[of c e s2] k2 R2 show ?thesis by (simp add: state_of_def)
    qed
  qed
qed

text \<open>
  Claim C7. The collected set never shrinks. Loading the persisted state joins the stored
  URLs to the set. Scanning a list page joins the page's kept links to it, so a link seen
  before changes nothing, and a page whose links are all known leaves the set as it was.
  Saving progress, going to the next page and applying the date filter of another day leave
  it unchanged. Over a whole run of either collector, however it ends, the set at the end
  contains the set at the start.
\<close>

theorem collected_urls_never_shrink:
  "(load_state_pages c p = Inr p' \<longrightarrow> collected_urls p \<subseteq> collected_urls p') \<and>
   (load_state_days strptime c d = Inr d' \<longrightarrow> collected_urls d \<subseteq> collected_urls d') \<and>
   collected_urls (collect_current_page_urls e p) = collected_urls p \<union> page_links (rows e (tick p)) \<and>
   collected_urls (collect_current_page_urls_days e d) = collected_urls d \<union> page_links (rows e (tick d)) \<and>
   (page_links (rows e (tick p)) \<subseteq> collected_urls p \<longrightarrow>
      collected_urls (collect_current_page_urls e p) = collected_urls p) \<and>
   (page_links (rows e (tick d)) \<subseteq> collected_urls d \<longrightarrow>
      collected_urls (collect_current_page_urls_days e d) = collected_urls d) \<and>
   collected_urls (state_of (persist_progress c e p)) = collected_urls p \<and>
   collected_urls (state_of (persist_progress_days c e d)) = collected_urls d \<and>
   (go_to_next_page (handle_bot_challenge c e) e p = Some opp \<longrightarrow>
      collected_urls (state_of opp) = collected_urls p) \<and>
   (go_to_next_page (handle_bot_challenge_days c e) e d = Some od \<longrightarrow>
      collected_urls (state_of od) = collected_urls d) \<and>
   (apply_date_filter_for_day c e (d\<lparr>current_scraping_date := Some day'\<rparr>) = Some ofd \<longrightarrow>
      collected_urls (state_of ofd) = collected_urls d) \<and>
   (run_pages c e p = Some rp \<longrightarrow> collected_urls p \<subseteq> collected_urls (state_of rp)) \<and>
   (run_days c e d = Some rd \<longrightarrow> collected_urls d \<subseteq> collected_urls (state_of rd))"
proof -
  have 1: "load_state_pages c p = Inr p' \<longrightarrow> collected_urls p \<subseteq> collected_urls p'"
    using load_pages_grows[of c p p'] by simp
  have 2: "load_state_days strptime c d = Inr d' \<longrightarrow> collected_urls d \<subseteq> collected_urls d'"
    using load_days_grows[of strptime c d d'] by simp
  have 3: "go_to_next_page (handle_bot_challenge c e) e p = Some opp \<longrightarrow>
      collected_urls (state_of opp) = collected_urls p"
    using go_next_pages_urls[of c e p opp] by simp
  have 4: "go_to_next_page (handle_bot_challenge_days c e) e d = Some od \<longrightarrow>
      collected_urls (state_of od) = collected_urls d"
    using go_next_days_urls[of c e d od] by simp
  have 5: "apply_date_filter_for_day c e (d\<lparr>current_scraping_date := Some day'\<rparr>) = Some ofd \<longrightarrow>
      collected_urls (state_of ofd) = collected_urls d"
    using filter_day_urls[of c e "d\<lparr>current_scraping_date := Some day'\<rparr>" ofd] by simp
  have 6: "run_pages c e p = Some rp \<longrightarrow> collected_urls p \<subseteq> collected_urls (state_of rp)"
    using run_pages_grows[of c e p rp] by simp
  have 7: "run_days c e d = Some rd \<longrightarrow> collected_urls d \<subseteq> collected_urls (state_of rd)"
    using run_days_grows[of c e d rd] by simp
  have 8: "page_links (rows e (tick p)) \<subseteq> collected_urls p \<longrightarrow>
      collected_urls (collect_current_page_urls e p) = collected_urls p"
    by (auto simp: collect_pages_eq)
  have 9: "page_links (rows e (tick d)) \<subseteq> collected_urls d \<longrightarrow>
      collected_urls (collect_current_page_urls_days e d) = collected_urls d"
    by (auto simp: collect_days_eq)
  from 1 2 3 4 5 6 7 8 9 show ?thesis
    by (simp only: collect_pages_eq collect_days_eq persist_pages_keeps persist_days_keeps simp_thms)
qed

lemma page_links_two_rows:
  "page_links (rows two_rows t) = {''https://app.any.run/tasks/ab12''}"
  by (simp add: two_rows_def quiet_def page_links_def extract_links_def wanted_def sublist_code)

theorem collected_urls_never_shrink_witness:
  "collected_urls (collect_current_page_urls two_rows fresh_pages) = {''https://app.any.run/tasks/ab12''} \<and>
   collected_urls (collect_current_page_urls two_rows (collect_current_page_urls two_rows fresh_pages)) =
     {''https://app.any.run/tasks/ab12''} \<and>
   collected_urls (collect_current_page_urls_days two_rows fresh_days) = {''https://app.any.run/tasks/ab12''}"
proof -
  note t = collected_urls_never_shrink[where e=two_rows]
  have a: "collected_urls (collect_current_page_urls two_rows fresh_pages) = {''https://app.any.run/tasks/ab12''}"
    using t[where p=fresh_pages, THEN conjunct2, THEN conjunct2, THEN conjunct1]
    by (simp add: page_links_two_rows) (simp add: fresh_pages_def)
  have h: "page_links (rows two_rows (tick (collect_current_page_urls two_rows fresh_pages)))
      \<subseteq> collected_urls (collect_current_page_urls two_rows fresh_pages)"
    by (simp add: a page_links_two_rows)
  from h t[where p="collect_current_page_urls two_rows fresh_pages", THEN conjunct2, THEN conjunct2,
      THEN conjunct2, THEN conjunct2, THEN conjunct1]
  have b: "collected_urls (collect_current_page_urls two_rows (collect_current_page_urls two_rows fresh_pages)) =
     collected_urls (collect_current_page_urls two_rows fresh_pages)" by simp
  have c: "collected_urls (collect_current_page_urls_days two_rows fresh_days) = {''https://app.any.run/tasks/ab12''}"
    using t[where d=fresh_days, THEN conjunct2, THEN conjunct2, THEN conjunct2, THEN conjunct1]
    by (simp add: page_links_two_rows) (simp add: fresh_days_def)
  from a b c show ?thesis by simp
qed

section \<open>Properties of the challenge probe\<close>

lemma lower_char_space: "xml_space (lower_char ch) = xml_space ch"
  by (auto simp: xml_space_def lower_char_def split: option.splits dest!: map_of_SomeD)

lemma lower_char_blank: "(lower_char ch = CHR '' '') = (ch = CHR '' '')"
  by (auto simp: lower_char_def split: option.splits dest!: map_of_SomeD)

lemma lower_char_of_blank: "lower_char CHR '' '' = CHR '' ''"
  by (simp add: lower_char_def)

lemma squeeze_lower: "squeeze (map lower_char t) = map lower_char (squeeze t)"
proof (induction t)
  case Nil
  show ?case by simp
next
  case (Cons ch t)
  show ?case
  proof (cases "squeeze t")
    case Nil
    with Cons show ?thesis by (simp add: lower_char_space)
  next
    case (Cons d ds)
    with Cons.IH show ?thesis
      by (simp add: lower_char_space lower_char_blank lower_char_of_blank)
  qed
qed

lemma normalize_space_lower: "normalize_space (lower t) = lower (normalize_space t)"
  by (cases "squeeze t") (simp_all add: normalize_space_def lower_def squeeze_lower lower_char_blank)

lemma lower_char_idem: "lower_char (lower_char ch) = lower_char ch"
  by (auto simp: lower_char_def split: option.splits dest!: map_of_SomeD)

lemma lower_idem: "lower (lower t) = lower t"
  by (simp add: lower_def lower_char_idem)

text \<open>
  The lower-cased search of the report scraper and of the date-bucket collector does not
  depend on letter case: two texts that agree up to the case of ASCII letters are matched
  alike, and a displayed notice that holds both phrases in any casing is reported.
\<close>

lemma lower_has_case:
  assumes "lower t = lower t'"
  shows "lower_has phrases t = lower_has phrases t'"
proof -
  have "lower (normalize_space t) = lower (normalize_space t')"
    using assms normalize_space_lower[of t] normalize_space_lower[of t']
    by (metis lower_idem)
  then show ?thesis by (simp add: lower_has_def)
qed

lemma notice_reported:
  "lower_has [''we noticed'', ''requests''] t \<Longrightarrow> is_bot_challenge_present (notice t)"
  by (simp add: is_bot_challenge_present_def find_elements_def notice_def)

lemma notice_reported_in_any_case:
  assumes "lower t = lower t'" "lower_has [''we noticed'', ''requests''] t"
  shows "is_bot_challenge_present (notice t')"
  using assms lower_has_case[OF assms(1)] notice_reported by simp

text \<open>
  Claim C9 fails on the page-cursor collector. Its probe compares the phrases
  \<^verbatim>\<open>Suspicious activity\<close> and \<^verbatim>\<open>confirm that you are not a bot\<close> with the page text as
  written: a displayed notice is reported in the casing of the source and missed in upper
  case, though the two texts agree up to letter case.
\<close>

theorem link_probe_is_case_sensitive:
  "lower ''Suspicious activity detected'' = lower ''SUSPICIOUS ACTIVITY DETECTED'' \<and>
   is_bot_challenge_present_pages cfg0 (notice ''Suspicious activity detected'') \<and>
   \<not> is_bot_challenge_present_pages cfg0 (notice ''SUSPICIOUS ACTIVITY DETECTED'')"
  by (simp add: is_bot_challenge_present_pages_def shows_one_def find_elements_def notice_def
      first_text_def extra_selectors_def cfg0_def lower_def lower_char_def sublist_code)

end
